theory Spec2Isabelle
  imports Main "HOL-Library.Sublist" "HOL-Library.Word"
begin

section \<open>Log records, severities and exceptions\<close>

text \<open>
  A \<open>logging.LogRecord\<close> carries many attributes; the handler reads only the numeric
  severity \<open>levelno\<close> (a Python \<open>int\<close>: the five standard levels and any custom level
  registered by the application) and hands the whole record to the formatter.
\<close>

record LogRecord =
  levelno :: int
  msg :: string

definition DEBUG :: int where "DEBUG = 10"
definition INFO :: int where "INFO = 20"
definition WARNING :: int where "WARNING = 30"
definition ERROR :: int where "ERROR = 40"
definition CRITICAL :: int where "CRITICAL = 50"

definition standard_level :: "int \<Rightarrow> bool" where
  "standard_level l = (l = DEBUG \<or> l = INFO \<or> l = WARNING \<or> l = ERROR \<or> l = CRITICAL)"

text \<open>Exceptions are values; \<open>Inl\<close> of a sum is a raise.\<close>

datatype error =
    IndexError
  | ValueError
  | UnboundLocalError
  | AssertionError
  | UnicodeEncodeError
  | RuntimeError
  | AttributeError
  | RecursionError
  | CancelledError
  | Exception string

section \<open>The record buffer: a double-ended queue\<close>

text \<open>
  \<open>collections.deque\<close> as a list, head first. \<open>popleft\<close> and \<open>pop\<close> raise
  \<open>IndexError\<close> on an empty deque.
\<close>

definition popleft :: "'a list \<Rightarrow> error + ('a \<times> 'a list)" where
  "popleft d = (case d of [] \<Rightarrow> Inl IndexError | x # xs \<Rightarrow> Inr (x, xs))"

definition pop :: "'a list \<Rightarrow> error + ('a \<times> 'a list)" where
  "pop d = (if d = [] then Inl IndexError else Inr (last d, butlast d))"

section \<open>Pressure relief\<close>

text \<open>
  The two filter stages of \<open>_handle_pressure\<close>:
  \<^verbatim>\<open>filter(lambda record: record.levelno > logging.DEBUG, self._buffer)\<close> and
  \<^verbatim>\<open>filter(lambda record: record.levelno > logging.INFO, self._buffer)\<close>.
\<close>

definition strip_debug :: "LogRecord list \<Rightarrow> LogRecord list" where
  "strip_debug buf = filter (\<lambda>record. levelno record > DEBUG) buf"

definition strip_info :: "LogRecord list \<Rightarrow> LogRecord list" where
  "strip_info buf = filter (\<lambda>record. levelno record > INFO) buf"

text \<open>
  \<^verbatim>\<open>buffer_split = floor(self.maximum_buffer / 2)\<close>. Python divides in floating point
  and floors the quotient; for \<open>|maximum_buffer| \<le> 2^53\<close> the quotient is exact and the
  result is the floor division written here. The stage runs only with more than
  \<open>maximum_buffer\<close> records in memory, which keeps a positive capacity far below that
  bound.
\<close>

definition buffer_split :: "int \<Rightarrow> int" where
  "buffer_split maximum_buffer = maximum_buffer div 2"

text \<open>
  \<^verbatim>\<open>for i in range(buffer_split): self._buffer.append(old_buffer.popleft())\<close>:
  the first argument counts the iterations left, the state is the old deque and the
  new one.
\<close>

fun fill_head :: "nat \<Rightarrow> 'a list \<Rightarrow> 'a list \<Rightarrow> error + ('a list \<times> 'a list)" where
  "fill_head 0 old_buffer new_buffer = Inr (old_buffer, new_buffer)"
| "fill_head (Suc n) old_buffer new_buffer =
     (case popleft old_buffer of
        Inl e \<Rightarrow> Inl e
      | Inr (x, old') \<Rightarrow> fill_head n old' (new_buffer @ [x]))"

text \<open>
  \<^verbatim>\<open>for i in range(buffer_split): end_buffer.append(old_buffer.pop())\<close>
\<close>

fun fill_end :: "nat \<Rightarrow> 'a list \<Rightarrow> 'a list \<Rightarrow> error + ('a list \<times> 'a list)" where
  "fill_end 0 old_buffer end_buffer = Inr (old_buffer, end_buffer)"
| "fill_end (Suc n) old_buffer end_buffer =
     (case pop old_buffer of
        Inl e \<Rightarrow> Inl e
      | Inr (x, old') \<Rightarrow> fill_end n old' (end_buffer @ [x]))"

text \<open>
  The middle cut. \<open>range\<close> of a non-positive number is empty, hence \<open>nat\<close>.
  The last step is \<^verbatim>\<open>self._buffer.extend(reversed(end_buffer))\<close>.
\<close>

definition cut_middle :: "int \<Rightarrow> 'a list \<Rightarrow> error + 'a list" where
  "cut_middle maximum_buffer old_buffer =
     (case fill_head (nat (buffer_split maximum_buffer)) old_buffer [] of
        Inl e \<Rightarrow> Inl e
      | Inr (old1, new_buffer) \<Rightarrow>
          (case fill_end (nat (buffer_split maximum_buffer)) old1 [] of
             Inl e \<Rightarrow> Inl e
           | Inr (old2, end_buffer) \<Rightarrow> Inr (new_buffer @ rev end_buffer)))"

text \<open>
  \<open>RemoteHandler._handle_pressure\<close>, on the two attributes it uses: the capacity and the
  buffer. The result is the new buffer, or the exception that escaped.
\<close>

definition handle_pressure :: "int \<Rightarrow> LogRecord list \<Rightarrow> error + LogRecord list" where
  "handle_pressure maximum_buffer buf =
     (if int (length buf) \<le> maximum_buffer then Inr buf
      else if int (length (strip_debug buf)) \<le> maximum_buffer then Inr (strip_debug buf)
      else if int (length (strip_info (strip_debug buf))) \<le> maximum_buffer
        then Inr (strip_info (strip_debug buf))
      else cut_middle maximum_buffer (strip_info (strip_debug buf)))"

text \<open>Which stage a pass stops at.\<close>

datatype stage = Untouched | DebugShed | InfoShed | MiddleCut

definition stage_reached :: "int \<Rightarrow> LogRecord list \<Rightarrow> stage" where
  "stage_reached maximum_buffer buf =
     (if int (length buf) \<le> maximum_buffer then Untouched
      else if int (length (strip_debug buf)) \<le> maximum_buffer then DebugShed
      else if int (length (strip_info (strip_debug buf))) \<le> maximum_buffer then InfoShed
      else MiddleCut)"

section \<open>Rendering a record to bytes\<close>

text \<open>
  A Python \<open>str\<close> is a sequence of code points, \<open>bytes\<close> a sequence of octets.
  \<^verbatim>\<open>msg.encode("utf8")\<close> raises \<open>UnicodeEncodeError\<close> on a surrogate code point;
  code points end at \<open>0x10FFFF\<close>.
\<close>

type_synonym str = "nat list"
type_synonym bytes = "8 word list"

definition encode_char :: "nat \<Rightarrow> error + bytes" where
  "encode_char c =
     (if c < 0x80 then Inr [word_of_nat c]
      else if c < 0x800 then
        Inr [word_of_nat (0xC0 + c div 0x40), word_of_nat (0x80 + c mod 0x40)]
      else if 0xD800 \<le> c \<and> c < 0xE000 then Inl UnicodeEncodeError
      else if c < 0x10000 then
        Inr [word_of_nat (0xE0 + c div 0x1000), word_of_nat (0x80 + c div 0x40 mod 0x40),
             word_of_nat (0x80 + c mod 0x40)]
      else if c < 0x110000 then
        Inr [word_of_nat (0xF0 + c div 0x40000), word_of_nat (0x80 + c div 0x1000 mod 0x40),
             word_of_nat (0x80 + c div 0x40 mod 0x40), word_of_nat (0x80 + c mod 0x40)]
      else Inl UnicodeEncodeError)"

fun encode_utf8 :: "str \<Rightarrow> error + bytes" where
  "encode_utf8 [] = Inr []"
| "encode_utf8 (c # cs) =
     (case encode_char c of
        Inl e \<Rightarrow> Inl e
      | Inr bs \<Rightarrow> (case encode_utf8 cs of Inl e \<Rightarrow> Inl e | Inr rest \<Rightarrow> Inr (bs @ rest)))"

definition newline :: bytes where
  "newline = [0x0A]"

text \<open>
  The formatter (\<open>logging.Handler.format\<close>) is a collaborator: a parameter
  \<open>fmt\<close> that returns the message or raises.
\<close>

type_synonym formatter = "LogRecord \<Rightarrow> error + str"

section \<open>The transport\<close>

text \<open>
  A transport object: its \<open>connected\<close> flag, the log of the \<open>write\<close> calls it accepted
  (one entry per call) and whether a producer is registered on it. What a \<open>write\<close> call
  does is the environment's choice, a parameter \<open>io\<close>: it may raise, it may call
  \<open>pauseProducing\<close> on its producer before it returns, and it may lose the connection.
\<close>

record transport_obj =
  connected :: bool
  written :: "bytes list"
  has_producer :: bool

record write_effect =
  raises :: "error option"
  calls_pause :: bool
  stays_connected :: bool

type_synonym wire = "transport_obj \<Rightarrow> bytes \<Rightarrow> write_effect"

definition transport_write ::
  "wire \<Rightarrow> transport_obj \<Rightarrow> bytes \<Rightarrow> transport_obj \<times> bool \<times> error option" where
  "transport_write io t bs =
     (let eff = io t bs in
      (t\<lparr>connected := stays_connected eff,
         written := (if raises eff = None then written t @ [bs] else written t)\<rparr>,
       calls_pause eff, raises eff))"

definition registerProducer :: "transport_obj \<Rightarrow> error + transport_obj" where
  "registerProducer t =
     (if has_producer t then Inl RuntimeError else Inr (t\<lparr>has_producer := True\<rparr>))"

section \<open>LogProducer\<close>

text \<open>
  The body of the \<open>try\<close> in \<open>resumeProducing\<close>, after the \<open>popleft\<close>: format and
  encode (\<open>render\<close>), write the message, write the newline. The result is the transport afterwards, whether
  the transport called \<open>pauseProducing\<close> meanwhile, and the exception raised, if any.
\<close>

definition render :: "formatter \<Rightarrow> LogRecord \<Rightarrow> error + bytes" where
  "render fmt record = (case fmt record of Inl e \<Rightarrow> Inl e | Inr m \<Rightarrow> encode_utf8 m)"

definition produce_record ::
  "formatter \<Rightarrow> wire \<Rightarrow> LogRecord \<Rightarrow> transport_obj \<Rightarrow> transport_obj \<times> bool \<times> error option" where
  "produce_record fmt io record t =
     (case render fmt record of
        Inl e \<Rightarrow> (t, False, Some e)
      | Inr bs \<Rightarrow>
          (case transport_write io t bs of
             (t1, p1, Some e) \<Rightarrow> (t1, p1, Some e)
           | (t1, p1, None) \<Rightarrow>
               (case transport_write io t1 newline of
                  (t2, p2, r2) \<Rightarrow> (t2, p1 \<or> p2, r2))))"

text \<open>
  The \<open>while\<close> loop of \<open>resumeProducing\<close>. The state is the \<open>_paused\<close> flag, the
  handler's buffer, the transport and what was printed to stderr. Every iteration pops the
  head record first, so the loop recurses on the buffer. On an exception the traceback is
  printed and the loop is left.
\<close>

fun produce_loop ::
  "formatter \<Rightarrow> wire \<Rightarrow> bool \<Rightarrow> LogRecord list \<Rightarrow> transport_obj \<Rightarrow> error list \<Rightarrow>
   bool \<times> LogRecord list \<times> transport_obj \<times> error list" where
  "produce_loop fmt io p [] t errs = (p, [], t, errs)"
| "produce_loop fmt io p (record # rest) t errs =
     (if p \<or> \<not> connected t then (p, record # rest, t, errs)
      else (case produce_record fmt io record t of
              (t', p', Some e) \<Rightarrow> (p', rest, t', errs @ [e])
            | (t', p', None) \<Rightarrow> produce_loop fmt io p' rest t' errs))"

record LogProducer =
  transport :: nat
  handler :: bool
  paused :: bool

definition pauseProducing :: "LogProducer \<Rightarrow> LogProducer" where
  "pauseProducing p = p\<lparr>paused := True\<rparr>"

definition stopProducing :: "LogProducer \<Rightarrow> LogProducer" where
  "stopProducing p = p\<lparr>paused := True, handler := False\<rparr>"

section \<open>RemoteHandler\<close>

text \<open>
  \<open>_connection_waiter\<close> is \<open>None\<close> or a Deferred. A Deferred kept there is either still
  waiting for the service, or it has fired and its callback raised (a Deferred keeps the
  exception of its callback as a failure; nothing resets the attribute then).
\<close>

datatype deferred = Waiting | Broken error

text \<open>
  The handler with its surroundings: the handler's attributes, the two diagnostic sinks
  (\<open>self._logger.failure\<close> and the tracebacks printed to \<open>sys.__stderr__\<close>), the
  transport of the service's current connection (\<open>None\<close> while there is none) and the
  transport objects by identity, and whether the service has been stopped
  (\<open>close\<close> stops it; a stopped service holds no connection).
\<close>

record system =
  maximum_buffer :: int
  buffer :: "LogRecord list"
  connection_waiter :: "deferred option"
  producer :: "LogProducer option"
  failures :: "(string \<times> error) list"
  stderr :: "error list"
  service :: "nat option"
  transports :: "nat \<Rightarrow> transport_obj"
  stopped :: bool

text \<open>
  \<open>LogProducer.resumeProducing\<close> of the handler's producer \<open>p\<close>. The result is the
  system afterwards and the exception that escaped, if any: the \<open>assert\<close> fails after
  the flag was cleared.
\<close>

definition resumeProducing ::
  "formatter \<Rightarrow> wire \<Rightarrow> LogProducer \<Rightarrow> system \<Rightarrow> system \<times> error option" where
  "resumeProducing fmt io p s =
     (if \<not> handler p then (s\<lparr>producer := Some (p\<lparr>paused := False\<rparr>)\<rparr>, Some AssertionError)
      else (case produce_loop fmt io False (buffer s) (transports s (transport p)) (stderr s) of
              (p', buf', t', errs') \<Rightarrow>
                (s\<lparr>producer := Some (p\<lparr>paused := p'\<rparr>), buffer := buf',
                   transports := (transports s)(transport p := t'), stderr := errs'\<rparr>, None)))"

text \<open>
  The tail of the callback \<open>writer\<close>: make a new producer for transport \<open>tr\<close>, register
  it, start it, reset the waiter.
\<close>

definition start_producer ::
  "formatter \<Rightarrow> wire \<Rightarrow> nat \<Rightarrow> system \<Rightarrow> system \<times> error option" where
  "start_producer fmt io tr s =
     (let p = \<lparr>transport = tr, handler = True, paused = True\<rparr>;
          s1 = s\<lparr>producer := Some p\<rparr>
      in case registerProducer (transports s1 tr) of
           Inl e \<Rightarrow> (s1, Some e)
         | Inr t \<Rightarrow>
             (case resumeProducing fmt io p (s1\<lparr>transports := (transports s1)(tr := t)\<rparr>) of
                (s2, Some e) \<Rightarrow> (s2, Some e)
              | (s2, None) \<Rightarrow> (s2\<lparr>connection_waiter := None\<rparr>, None)))"

text \<open>The callback \<open>writer(r)\<close> of \<open>_connect\<close>, with \<open>tr\<close> for \<open>r.transport\<close>.\<close>

definition writer :: "formatter \<Rightarrow> wire \<Rightarrow> nat \<Rightarrow> system \<Rightarrow> system \<times> error option" where
  "writer fmt io tr s =
     (case producer s of
        Some p \<Rightarrow>
          (if transport p = tr then
             (case resumeProducing fmt io p s of
                (s1, Some e) \<Rightarrow> (s1, Some e)
              | (s1, None) \<Rightarrow> (s1\<lparr>connection_waiter := None\<rparr>, None))
           else start_producer fmt io tr (s\<lparr>producer := Some (stopProducing p)\<rparr>))
      | None \<Rightarrow> start_producer fmt io tr s)"

text \<open>
  A Deferred runs a callback added after it has fired at once, and keeps an exception of
  the callback to itself.
\<close>

definition fire :: "formatter \<Rightarrow> wire \<Rightarrow> nat \<Rightarrow> system \<Rightarrow> system" where
  "fire fmt io tr s =
     (case writer fmt io tr s of
        (s1, None) \<Rightarrow> s1
      | (s1, Some e) \<Rightarrow> s1\<lparr>connection_waiter := Some (Broken e)\<rparr>)"

text \<open>
  \<open>_connect\<close> on a stopped service. There \<open>whenConnected\<close> returns a Deferred that
  has failed already (\<open>CancelledError\<close>), so \<open>addErrback\<close> runs \<open>fail\<close> at once: it
  prints the traceback, resets \<open>_connection_waiter\<close> and calls \<open>_connect\<close> again, which
  meets the same service. The interpreter ends the descent: at its recursion limit the
  next call raises \<open>RecursionError\<close>, which the Deferred of the level above keeps.
  Every level then goes on to
  \<^verbatim>\<open>@self._connection_waiter.addCallback\<close>: the attribute is read again, and on
  \<open>None\<close> the read raises \<open>AttributeError\<close>. The first argument counts the calls the
  interpreter still allows.
\<close>

definition recursion_limit :: nat where
  "recursion_limit = 1000"

fun connect_stopped :: "nat \<Rightarrow> system \<Rightarrow> system \<times> error option" where
  "connect_stopped 0 s = (s, Some RecursionError)"
| "connect_stopped (Suc depth) s =
     (if connection_waiter s \<noteq> None then (s, None)
      else (case connect_stopped depth
                   (s\<lparr>connection_waiter := Some (Broken CancelledError),
                      stderr := stderr s @ [CancelledError],
                      connection_waiter := None\<rparr>) of
              (s1, x) \<Rightarrow>
                (case connection_waiter s1 of
                   None \<Rightarrow> (s1, Some AttributeError)
                 | Some d \<Rightarrow> (s1, None))))"

text \<open>
  \<open>RemoteHandler._connect\<close>. \<open>whenConnected\<close> returns a Deferred that has fired
  already when the service holds a connection, one that has failed already when the
  service is stopped, and a waiting one otherwise; the callbacks of a waiting Deferred
  run on a later event.
\<close>

definition connect :: "formatter \<Rightarrow> wire \<Rightarrow> system \<Rightarrow> system \<times> error option" where
  "connect fmt io s =
     (if connection_waiter s \<noteq> None then (s, None)
      else (case service s of
              None \<Rightarrow>
                (if stopped s then connect_stopped recursion_limit s
                 else (s\<lparr>connection_waiter := Some Waiting\<rparr>, None))
            | Some tr \<Rightarrow> (fire fmt io tr (s\<lparr>connection_waiter := Some Waiting\<rparr>), None)))"

text \<open>
  \<open>RemoteHandler.emit\<close>, in its three steps. The pressure-relief method is looked up on
  \<open>self\<close>, so the guarded call is written for any such method \<open>hp\<close> first.
\<close>

definition append_record :: "system \<Rightarrow> LogRecord \<Rightarrow> system" where
  "append_record s record = s\<lparr>buffer := buffer s @ [record]\<rparr>"

definition relieve_with ::
  "(int \<Rightarrow> LogRecord list \<Rightarrow> error + LogRecord list) \<Rightarrow> system \<Rightarrow> system" where
  "relieve_with hp s =
     (case hp (maximum_buffer s) (buffer s) of
        Inr b \<Rightarrow> s\<lparr>buffer := b\<rparr>
      | Inl e \<Rightarrow> s\<lparr>buffer := [],
                    failures := failures s @ [(''Failed clearing backpressure'', e)]\<rparr>)"

definition emit_with ::
  "(int \<Rightarrow> LogRecord list \<Rightarrow> error + LogRecord list) \<Rightarrow>
   formatter \<Rightarrow> wire \<Rightarrow> system \<Rightarrow> LogRecord \<Rightarrow> system \<times> error option" where
  "emit_with hp fmt io s record = connect fmt io (relieve_with hp (append_record s record))"

definition emit :: "formatter \<Rightarrow> wire \<Rightarrow> system \<Rightarrow> LogRecord \<Rightarrow> system \<times> error option" where
  "emit fmt io s record = emit_with handle_pressure fmt io s record"

section \<open>Construction\<close>

text \<open>
  \<open>RemoteHandler.__init__\<close>. \<open>ipaddress.ip_address\<close> is a parameter: it returns an
  address of one of the two families or raises \<open>ValueError\<close>. The argument
  \<open>_reactor\<close> is optional; the local name \<open>reactor\<close> is bound by the import only, that
  is when no reactor was passed, and reading an unbound local raises
  \<open>UnboundLocalError\<close>.
\<close>

datatype ipaddr = IPv4Address | IPv6Address

datatype endpoint =
    TCP4ClientEndpoint nat string int
  | TCP6ClientEndpoint nat string int
  | HostnameEndpoint nat string int

definition select_endpoint ::
  "(string \<Rightarrow> error + ipaddr) \<Rightarrow> nat \<Rightarrow> string \<Rightarrow> int \<Rightarrow> nat option \<Rightarrow> error + endpoint" where
  "select_endpoint ip_address global_reactor host port reactor_arg =
     (let local_reactor = (case reactor_arg of None \<Rightarrow> Some global_reactor | Some r \<Rightarrow> None);
          used_reactor = (case reactor_arg of None \<Rightarrow> global_reactor | Some r \<Rightarrow> r)
      in case ip_address host of
           Inr IPv4Address \<Rightarrow> Inr (TCP4ClientEndpoint used_reactor host port)
         | Inr IPv6Address \<Rightarrow> Inr (TCP6ClientEndpoint used_reactor host port)
         | Inl ValueError \<Rightarrow>
             (case local_reactor of
                None \<Rightarrow> Inl UnboundLocalError
              | Some r \<Rightarrow> Inr (HostnameEndpoint r host port))
         | Inl e \<Rightarrow> Inl e)"

definition fresh_transport :: transport_obj where
  "fresh_transport = \<lparr>connected = False, written = [], has_producer = False\<rparr>"

definition blank :: "int \<Rightarrow> system" where
  "blank cap =
     \<lparr>maximum_buffer = cap, buffer = [], connection_waiter = None, producer = None,
      failures = [], stderr = [], service = None, transports = (\<lambda>_. fresh_transport),
      stopped = False\<rparr>"

definition init ::
  "(string \<Rightarrow> error + ipaddr) \<Rightarrow> formatter \<Rightarrow> wire \<Rightarrow> nat \<Rightarrow> string \<Rightarrow> int \<Rightarrow> int \<Rightarrow>
   nat option \<Rightarrow> error + (endpoint \<times> system)" where
  "init ip_address fmt io global_reactor host port cap reactor_arg =
     (case select_endpoint ip_address global_reactor host port reactor_arg of
        Inl e \<Rightarrow> Inl e
      | Inr ep \<Rightarrow> Inr (ep, fst (connect fmt io (blank cap))))"

section \<open>Events\<close>

text \<open>
  What happens to a constructed handler: the application emits a record; the service
  reports a connection on transport \<open>tr\<close> (a waiting Deferred fires) or a failed attempt
  (the errback \<open>fail\<close> prints the traceback, resets the waiter and connects again); the
  connection is lost (the transport stops its producer); the transport pauses or resumes
  its producer; the application closes the handler. After the errback has returned, the Deferred goes on to call \<open>writer\<close>
  with \<open>None\<close>, which raises on \<open>r.transport\<close> before it changes anything; that call
  leaves no trace in the state.
\<close>

datatype event =
    Emit LogRecord
  | ConnectionMade nat
  | ConnectionFailed error
  | ConnectionLost
  | TransportPause
  | TransportResume
  | Close

definition connection_made :: "formatter \<Rightarrow> wire \<Rightarrow> nat \<Rightarrow> system \<Rightarrow> system" where
  "connection_made fmt io tr s =
     (if stopped s then s
      else let s1 = s\<lparr>service := Some tr,
                      transports := (transports s)(tr := (transports s tr)\<lparr>connected := True\<rparr>)\<rparr>
           in if connection_waiter s1 = Some Waiting then fire fmt io tr s1 else s1)"

definition connection_failed :: "formatter \<Rightarrow> wire \<Rightarrow> error \<Rightarrow> system \<Rightarrow> system" where
  "connection_failed fmt io e s =
     (if connection_waiter s = Some Waiting
      then fst (connect fmt io (s\<lparr>stderr := stderr s @ [e], connection_waiter := None\<rparr>))
      else s)"

definition connection_lost :: "system \<Rightarrow> system" where
  "connection_lost s =
     (case service s of
        None \<Rightarrow> s
      | Some tr \<Rightarrow>
          s\<lparr>service := None,
            transports := (transports s)(tr := (transports s tr)\<lparr>connected := False\<rparr>),
            producer := (case producer s of
                           None \<Rightarrow> None
                         | Some p \<Rightarrow> Some (if transport p = tr then stopProducing p else p))\<rparr>)"

text \<open>
  \<open>RemoteHandler.close\<close>, that is \<open>self._service.stopService()\<close>: the service drops
  its connection, is stopped from then on, and fails a Deferred that is still waiting
  with \<open>CancelledError\<close>.
\<close>

definition close :: "formatter \<Rightarrow> wire \<Rightarrow> system \<Rightarrow> system" where
  "close fmt io s = connection_failed fmt io CancelledError ((connection_lost s)\<lparr>stopped := True\<rparr>)"

fun step :: "formatter \<Rightarrow> wire \<Rightarrow> system \<Rightarrow> event \<Rightarrow> system" where
  "step fmt io s (Emit record) = fst (emit fmt io s record)"
| "step fmt io s (ConnectionMade tr) = connection_made fmt io tr s"
| "step fmt io s (ConnectionFailed e) = connection_failed fmt io e s"
| "step fmt io s ConnectionLost = connection_lost s"
| "step fmt io s TransportPause =
     (case producer s of None \<Rightarrow> s | Some p \<Rightarrow> s\<lparr>producer := Some (pauseProducing p)\<rparr>)"
| "step fmt io s TransportResume =
     (case producer s of None \<Rightarrow> s | Some p \<Rightarrow> fst (resumeProducing fmt io p s))"
| "step fmt io s Close = close fmt io s"

definition run :: "formatter \<Rightarrow> wire \<Rightarrow> system \<Rightarrow> event list \<Rightarrow> system" where
  "run fmt io s evs = foldl (step fmt io) s evs"

text \<open>The handler right after a successful construction with capacity \<open>cap\<close>.\<close>

definition constructed :: "formatter \<Rightarrow> wire \<Rightarrow> int \<Rightarrow> system" where
  "constructed fmt io cap = fst (connect fmt io (blank cap))"

section \<open>Sample data\<close>

definition decimal_digit :: "nat \<Rightarrow> char" where
  "decimal_digit n = char_of (48 + n)"

fun decimal :: "nat \<Rightarrow> string" where
  "decimal n = (if n < 10 then [decimal_digit n] else decimal (n div 10) @ [decimal_digit (n mod 10)])"

text \<open>\<^verbatim>\<open>logger.warning("warn %s" % (i,))\<close>\<close>

definition warn :: "nat \<Rightarrow> LogRecord" where
  "warn i = \<lparr>levelno = WARNING, msg = ''warn '' @ decimal i\<rparr>"

text \<open>A formatter that renders the message text, and a transport that takes every write.\<close>

definition plain_format :: formatter where
  "plain_format record = Inr (map of_char (msg record))"

definition accepting :: wire where
  "accepting t bs = \<lparr>raises = None, calls_pause = False, stays_connected = True\<rparr>"

definition refusing :: wire where
  "refusing t bs = \<lparr>raises = Some (Exception ''write failed''), calls_pause = False,
                     stays_connected = True\<rparr>"

text \<open>\<open>warn i\<close> up to \<open>warn (j - 1)\<close>, emitted one after the other.\<close>

definition warnings :: "nat \<Rightarrow> nat \<Rightarrow> event list" where
  "warnings i j = map (\<lambda>k. Emit (warn k)) [i..<j]"

text \<open>The bytes of an ASCII text.\<close>

definition ascii :: "string \<Rightarrow> bytes" where
  "ascii text = map (\<lambda>c. word_of_nat (of_char c)) text"

text \<open>\<open>ip_address\<close> on the hosts used below: two literals, anything else is refused.\<close>

definition sample_ip_address :: "string \<Rightarrow> error + ipaddr" where
  "sample_ip_address host =
     (if host = ''127.0.0.1'' then Inr IPv4Address
      else if host = ''::1'' then Inr IPv6Address
      else Inl ValueError)"

text \<open>
  A handler with capacity 10 whose service has just connected on transport \<open>0\<close>, its
  producer, and the record of scenario D.
\<close>

definition connected_system :: "formatter \<Rightarrow> wire \<Rightarrow> system" where
  "connected_system fmt io = run fmt io (constructed fmt io 10) [ConnectionMade 0]"

definition sample_producer :: LogProducer where
  "sample_producer = \<lparr>transport = 0, handler = True, paused = False\<rparr>"

definition hello :: LogRecord where
  "hello = \<lparr>levelno = INFO, msg = ''Hello there, wally!''\<rparr>"

text \<open>The connected handler with two records waiting, and with the record \<open>hello\<close>.\<close>

definition backlog :: "formatter \<Rightarrow> wire \<Rightarrow> system" where
  "backlog fmt io = append_record (append_record (connected_system fmt io) (warn 0)) (warn 1)"

definition greeting :: "formatter \<Rightarrow> wire \<Rightarrow> system" where
  "greeting fmt io = append_record (connected_system fmt io) hello"

text \<open>A transport that takes \<open>n\<close> writes and raises on every later one.\<close>

definition refusing_after :: "nat \<Rightarrow> wire" where
  "refusing_after n t bs =
     (if length (written t) < n
      then \<lparr>raises = None, calls_pause = False, stays_connected = True\<rparr>
      else \<lparr>raises = Some (Exception ''write failed''), calls_pause = False,
             stays_connected = True\<rparr>)"

text \<open>
  A step of the drain loop fails with \<open>e\<close> on record \<open>record\<close> and transport \<open>t\<close>:
  formatting or encoding the record raises \<open>e\<close>, or the write of the message does, or,
  the message written, the write of the newline does.
\<close>

definition step_fails :: "formatter \<Rightarrow> wire \<Rightarrow> LogRecord \<Rightarrow> transport_obj \<Rightarrow> error \<Rightarrow> bool" where
  "step_fails fmt io record t e =
     (case render fmt record of
        Inl e' \<Rightarrow> e' = e
      | Inr bs \<Rightarrow>
          (case raises (io t bs) of
             Some e' \<Rightarrow> e' = e
           | None \<Rightarrow> raises (io (fst (transport_write io t bs)) newline) = Some e))"

text \<open>The write calls that deliver the rendered records \<open>bss\<close>: two calls each.\<close>

definition chunks :: "bytes list \<Rightarrow> bytes list" where
  "chunks bss = concat (map (\<lambda>bs. [bs, newline]) bss)"

text \<open>
  What a run of the drain loop can have done: it delivered the first \<open>n\<close> records, whose
  renderings are \<open>bss\<close>, and then either stopped without a failure, or failed on record
  \<open>n\<close>, after writing nothing of it or its message alone (\<open>rest\<close>).
\<close>

definition drained ::
  "formatter \<Rightarrow> LogRecord list \<Rightarrow> transport_obj \<Rightarrow> error list \<Rightarrow>
   LogRecord list \<Rightarrow> transport_obj \<Rightarrow> error list \<Rightarrow> nat \<Rightarrow> bytes list \<Rightarrow> bytes list \<Rightarrow> bool" where
  "drained fmt buf t errs buf' t' errs' n bss rest =
     (n \<le> length buf \<and> map (render fmt) (take n buf) = map Inr bss
      \<and> written t' = written t @ chunks bss @ rest
      \<and> (errs' = errs \<and> buf' = drop n buf \<and> rest = []
         \<or> n < length buf \<and> (\<exists>e. errs' = errs @ [e]) \<and> buf' = drop (Suc n) buf
            \<and> (rest = [] \<or> (\<exists>bs. render fmt (buf ! n) = Inr bs \<and> rest = [bs]))))"

section \<open>The shedding policy in the specification's words\<close>

text \<open>
  Removing every record of severity strictly below a level, and removing every record of
  severity at or below a level; the survivors keep their order.
\<close>

definition shed_below :: "int \<Rightarrow> LogRecord list \<Rightarrow> LogRecord list" where
  "shed_below l buf = filter (\<lambda>record. \<not> levelno record < l) buf"

definition shed_upto :: "int \<Rightarrow> LogRecord list \<Rightarrow> LogRecord list" where
  "shed_upto l buf = filter (\<lambda>record. \<not> levelno record \<le> l) buf"

definition at_least :: "int \<Rightarrow> LogRecord list \<Rightarrow> LogRecord list" where
  "at_least l buf = filter (\<lambda>record. l \<le> levelno record) buf"

definition standard_levels :: "LogRecord list \<Rightarrow> bool" where
  "standard_levels buf = list_all (\<lambda>record. standard_level (levelno record)) buf"

text \<open>Keeping the first \<open>k\<close> and the last \<open>k\<close> of a sequence.\<close>

definition keep_ends :: "nat \<Rightarrow> 'a list \<Rightarrow> 'a list" where
  "keep_ends k ws = take k ws @ drop (length ws - k) ws"

definition middle :: "nat \<Rightarrow> 'a list \<Rightarrow> 'a list" where
  "middle k ws = take (length ws - 2 * k) (drop k ws)"

text \<open>
  A step that leaves the capacity alone and does not lengthen the buffer, and the bound
  the buffer is to respect between two events.
\<close>

definition no_growth :: "system \<Rightarrow> system \<Rightarrow> bool" where
  "no_growth s s' =
     (maximum_buffer s' = maximum_buffer s \<and> length (buffer s') \<le> length (buffer s))"

definition within_capacity :: "system \<Rightarrow> bool" where
  "within_capacity s = (int (length (buffer s)) \<le> maximum_buffer s)"

text \<open>Sample records.\<close>

definition sample :: "int \<Rightarrow> string \<Rightarrow> LogRecord" where
  "sample l m = \<lparr>levelno = l, msg = m\<rparr>"

section \<open>Facts about the deque loops\<close>

lemma fill_head_ok:
  "n \<le> length old \<Longrightarrow> fill_head n old new = Inr (drop n old, new @ take n old)"
proof (induction n arbitrary: old new)
  case 0
  then show ?case by simp
next
  case (Suc n)
  then obtain x xs where old: "old = x # xs" by (cases old) auto
  with Suc.prems have "n \<le> length xs" by simp
  from Suc.IH [OF this] show ?case by (simp add: old popleft_def)
qed

lemma fill_head_underflow:
  "length old < n \<Longrightarrow> fill_head n old new = Inl IndexError"
proof (induction n arbitrary: old new)
  case 0
  then show ?case by simp
next
  case (Suc n)
  show ?case
  proof (cases old)
    case Nil
    then show ?thesis by (simp add: popleft_def)
  next
    case (Cons x xs)
    with Suc.prems have "length xs < n" by simp
    from Suc.IH [OF this] show ?thesis by (simp add: Cons popleft_def)
  qed
qed

lemma fill_end_ok:
  "n \<le> length old \<Longrightarrow>
   fill_end n old acc = Inr (take (length old - n) old, acc @ rev (drop (length old - n) old))"
proof (induction n arbitrary: old acc)
  case 0
  then show ?case by simp
next
  case (Suc n)
  then have ne: "old \<noteq> []" by auto
  then obtain ys y where old: "old = ys @ [y]" by (metis rev_exhaust)
  with Suc.prems have le: "n \<le> length ys" by simp
  have "fill_end (Suc n) old acc = fill_end n ys (acc @ [y])"
    by (simp add: old pop_def)
  also have "\<dots> = Inr (take (length ys - n) ys, (acc @ [y]) @ rev (drop (length ys - n) ys))"
    by (rule Suc.IH [OF le])
  also have "take (length ys - n) ys = take (length old - Suc n) old"
    by (simp add: old)
  also have "(acc @ [y]) @ rev (drop (length ys - n) ys) = acc @ rev (drop (length old - Suc n) old)"
    using le by (simp add: old)
  finally show ?case .
qed

lemma fill_end_underflow:
  "length old < n \<Longrightarrow> fill_end n old acc = Inl IndexError"
proof (induction n arbitrary: old acc)
  case 0
  then show ?case by simp
next
  case (Suc n)
  show ?case
  proof (cases "old = []")
    case True
    then show ?thesis by (simp add: pop_def)
  next
    case False
    with Suc.prems have "length (butlast old) < n"
      by (cases old rule: rev_cases) auto
    from Suc.IH [OF this] False show ?thesis by (simp add: pop_def)
  qed
qed

lemma cut_middle_ok:
  assumes "2 * nat (buffer_split m) \<le> length ws"
  shows "cut_middle m ws =
    Inr (take (nat (buffer_split m)) ws @ drop (length ws - nat (buffer_split m)) ws)"
proof -
  let ?k = "nat (buffer_split m)"
  have k: "?k \<le> length ws" and k2: "?k \<le> length (drop ?k ws)"
    using assms by simp_all
  have tail: "drop (length (drop ?k ws) - ?k) (drop ?k ws) = drop (length ws - ?k) ws"
    using assms by simp
  show ?thesis
    unfolding cut_middle_def
    by (simp add: fill_head_ok [OF k] fill_end_ok [OF k2] tail del: length_drop drop_drop)
qed

lemma split_twice_le: "0 \<le> m \<Longrightarrow> 2 * nat (buffer_split m) \<le> nat m"
  unfolding buffer_split_def by linarith

lemma split_twice_nonpos: "m \<le> 0 \<Longrightarrow> nat (buffer_split m) = 0"
  unfolding buffer_split_def by linarith

lemma split_twice_fits: "m < int (length ws) \<Longrightarrow> 2 * nat (buffer_split m) \<le> length ws"
  unfolding buffer_split_def by linarith

lemma strip_info_strip_debug:
  "strip_info (strip_debug buf) = filter (\<lambda>record. levelno record > INFO) buf"
  unfolding strip_info_def strip_debug_def DEBUG_def INFO_def
  by (simp add: conj_commute cong: conj_cong) (rule filter_cong, auto)


section \<open>Facts about the filter stages\<close>

lemma strip_debug_upto: "strip_debug buf = shed_upto DEBUG buf"
  unfolding strip_debug_def shed_upto_def by (rule filter_cong) auto

lemma strip_info_upto: "strip_info (strip_debug buf) = shed_upto INFO buf"
  unfolding strip_info_strip_debug shed_upto_def by (rule filter_cong) auto

lemma standard_shed_debug:
  "standard_levels buf \<Longrightarrow> shed_upto DEBUG buf = shed_below INFO buf"
  unfolding standard_levels_def shed_upto_def shed_below_def list_all_iff
  by (rule filter_cong)
     (auto simp: standard_level_def DEBUG_def INFO_def WARNING_def ERROR_def CRITICAL_def)

lemma standard_shed_info:
  "standard_levels buf \<Longrightarrow> shed_upto INFO buf = shed_below WARNING buf"
  unfolding standard_levels_def shed_upto_def shed_below_def list_all_iff
  by (rule filter_cong)
     (auto simp: standard_level_def DEBUG_def INFO_def WARNING_def ERROR_def CRITICAL_def)

lemma at_least_shed_upto:
  "l < WARNING \<Longrightarrow> at_least WARNING (shed_upto l buf) = at_least WARNING buf"
  unfolding at_least_def shed_upto_def by (induction buf) auto

lemma length_strip_debug: "length (strip_debug buf) \<le> length buf"
  unfolding strip_debug_def by simp

lemma length_strip_info: "length (strip_info buf) \<le> length buf"
  unfolding strip_info_def by simp

section \<open>Shedding order\<close>

lemma stages_by_level:
  assumes "cap < int (length buf)"
  shows "strip_debug buf = shed_upto DEBUG buf"
    and "strip_info (strip_debug buf) = shed_upto INFO buf"
    and "int (length (strip_debug buf)) \<le> cap \<Longrightarrow>
           handle_pressure cap buf = Inr (strip_debug buf)"
    and "cap < int (length (strip_debug buf)) \<Longrightarrow>
         int (length (strip_info (strip_debug buf))) \<le> cap \<Longrightarrow>
           handle_pressure cap buf = Inr (strip_info (strip_debug buf))"
    and "cap < int (length (strip_info (strip_debug buf))) \<Longrightarrow>
           handle_pressure cap buf = cut_middle cap (strip_info (strip_debug buf))"
proof -
  show "strip_debug buf = shed_upto DEBUG buf" by (rule strip_debug_upto)
  show "strip_info (strip_debug buf) = shed_upto INFO buf" by (rule strip_info_upto)
  show "handle_pressure cap buf = Inr (strip_debug buf)"
    if "int (length (strip_debug buf)) \<le> cap"
    using assms that by (simp add: handle_pressure_def)
  show "handle_pressure cap buf = Inr (strip_info (strip_debug buf))"
    if "cap < int (length (strip_debug buf))"
      and "int (length (strip_info (strip_debug buf))) \<le> cap"
    using assms that by (simp add: handle_pressure_def)
  show "handle_pressure cap buf = cut_middle cap (strip_info (strip_debug buf))"
    if over: "cap < int (length (strip_info (strip_debug buf)))"
  proof -
    from over length_strip_info [of "strip_debug buf"]
    have "cap < int (length (strip_debug buf))" by linarith
    with assms over show ?thesis by (simp add: handle_pressure_def)
  qed
qed

text \<open>
  C1. Severities are the five standard levels. For a buffer over capacity the pass
  first removes exactly the records of severity strictly below \<open>INFO\<close>, keeping the
  order of the others, and stops there if that suffices; only if the buffer is still over
  capacity it also removes the records strictly below \<open>WARNING\<close>; only after both
  stages comes the middle cut. No record at \<open>WARNING\<close> or above is removed by either
  stage.
\<close>

theorem shedding_order:
  assumes "cap < int (length buf)" and "standard_levels buf"
  shows "strip_debug buf = shed_below INFO buf
       \<and> subseq (shed_below INFO buf) buf
       \<and> (int (length (shed_below INFO buf)) \<le> cap \<longrightarrow>
            handle_pressure cap buf = Inr (shed_below INFO buf))
       \<and> strip_info (strip_debug buf) = shed_below WARNING buf
       \<and> subseq (shed_below WARNING buf) (shed_below INFO buf)
       \<and> (cap < int (length (shed_below INFO buf))
            \<and> int (length (shed_below WARNING buf)) \<le> cap \<longrightarrow>
            handle_pressure cap buf = Inr (shed_below WARNING buf))
       \<and> (cap < int (length (shed_below WARNING buf)) \<longrightarrow>
            handle_pressure cap buf = cut_middle cap (shed_below WARNING buf))
       \<and> at_least WARNING (shed_below INFO buf) = at_least WARNING buf
       \<and> at_least WARNING (shed_below WARNING buf) = at_least WARNING buf"
proof -
  have first: "strip_debug buf = shed_below INFO buf"
    using standard_shed_debug [OF assms(2)] by (simp add: strip_debug_upto)
  have second: "strip_info (strip_debug buf) = shed_below WARNING buf"
    using standard_shed_info [OF assms(2)] by (simp add: strip_info_upto)
  from second have second': "strip_info (shed_below INFO buf) = shed_below WARNING buf"
    by (simp only: first)
  have order1: "subseq (shed_below INFO buf) buf"
    unfolding shed_below_def by simp
  have "subseq (strip_info (strip_debug buf)) (strip_debug buf)"
    unfolding strip_info_def by simp
  then have "subseq (shed_below WARNING buf) (strip_debug buf)"
    by (simp only: second)
  then have order2: "subseq (shed_below WARNING buf) (shed_below INFO buf)"
    by (simp only: first)
  note stages = stages_by_level [OF assms(1)]
  have stop1: "int (length (shed_below INFO buf)) \<le> cap \<longrightarrow>
      handle_pressure cap buf = Inr (shed_below INFO buf)"
    using stages(3) by (simp add: first)
  have stop2: "cap < int (length (shed_below INFO buf))
      \<and> int (length (shed_below WARNING buf)) \<le> cap \<longrightarrow>
      handle_pressure cap buf = Inr (shed_below WARNING buf)"
    using stages(4) by (simp add: first second')
  have third: "cap < int (length (shed_below WARNING buf)) \<longrightarrow>
      handle_pressure cap buf = cut_middle cap (shed_below WARNING buf)"
    using stages(5) by (simp add: first second')
  have keep1: "at_least WARNING (shed_below INFO buf) = at_least WARNING buf"
    using at_least_shed_upto [of DEBUG buf] standard_shed_debug [OF assms(2)]
    by (simp add: DEBUG_def WARNING_def)
  have keep2: "at_least WARNING (shed_below WARNING buf) = at_least WARNING buf"
    using at_least_shed_upto [of INFO buf] standard_shed_info [OF assms(2)]
    by (simp add: INFO_def WARNING_def)
  from first order1 stop1 second order2 stop2 third keep1 keep2
  show ?thesis by (intro conjI)
qed

theorem shedding_order_witness:
  "(1::int) < int (length [sample DEBUG ''d'', sample INFO ''i'', sample WARNING ''w''])
   \<and> standard_levels [sample DEBUG ''d'', sample INFO ''i'', sample WARNING ''w'']
   \<and> shed_below INFO [sample DEBUG ''d'', sample INFO ''i'', sample WARNING ''w'']
       = [sample INFO ''i'', sample WARNING ''w'']
   \<and> shed_below WARNING [sample DEBUG ''d'', sample INFO ''i'', sample WARNING ''w'']
       = [sample WARNING ''w'']
   \<and> handle_pressure 2 [sample DEBUG ''d'', sample INFO ''i'', sample WARNING ''w'']
       = Inr [sample INFO ''i'', sample WARNING ''w'']
   \<and> handle_pressure 1 [sample DEBUG ''d'', sample INFO ''i'', sample WARNING ''w'']
       = Inr [sample WARNING ''w'']"
proof -
  let ?buf = "[sample DEBUG ''d'', sample INFO ''i'', sample WARNING ''w'']"
  have over1: "(1::int) < int (length ?buf)" and over2: "(2::int) < int (length ?buf)"
    by simp_all
  have std: "standard_levels ?buf"
    by (simp add: standard_levels_def standard_level_def sample_def)
  have below_info: "shed_below INFO ?buf = [sample INFO ''i'', sample WARNING ''w'']"
    by (simp add: shed_below_def sample_def DEBUG_def INFO_def WARNING_def)
  have below_warning: "shed_below WARNING ?buf = [sample WARNING ''w'']"
    by (simp add: shed_below_def sample_def DEBUG_def INFO_def WARNING_def)
  from shedding_order [OF over2 std] below_info
  have two: "handle_pressure 2 ?buf = Inr [sample INFO ''i'', sample WARNING ''w'']"
    by simp
  from shedding_order [OF over1 std] below_info below_warning
  have one: "handle_pressure 1 ?buf = Inr [sample WARNING ''w'']"
    by simp
  from over1 std below_info below_warning two one show ?thesis by (intro conjI)
qed

section \<open>The middle cut\<close>

text \<open>
  C2. When the buffer left by the two filter stages still holds more records than the
  capacity, the pass ends with the first \<open>k\<close> and the last \<open>k\<close> of them,
  \<open>k = floor(capacity / 2)\<close>, head segment first, the tail segment in its original order;
  what is dropped is exactly the segment between them.
\<close>

theorem middle_cut_keeps_ends:
  assumes "cap < int (length (strip_info (strip_debug buf)))"
  shows "handle_pressure cap buf
           = Inr (keep_ends (nat (cap div 2)) (strip_info (strip_debug buf)))
       \<and> cut_middle cap (strip_info (strip_debug buf))
           = Inr (take (nat (cap div 2)) (strip_info (strip_debug buf))
                  @ drop (length (strip_info (strip_debug buf)) - nat (cap div 2))
                      (strip_info (strip_debug buf)))
       \<and> strip_info (strip_debug buf)
           = take (nat (cap div 2)) (strip_info (strip_debug buf))
             @ middle (nat (cap div 2)) (strip_info (strip_debug buf))
             @ drop (length (strip_info (strip_debug buf)) - nat (cap div 2))
                 (strip_info (strip_debug buf))"
proof -
  let ?ws = "strip_info (strip_debug buf)"
  let ?k = "nat (cap div 2)"
  have fits: "2 * nat (buffer_split cap) \<le> length ?ws"
    using assms by (rule split_twice_fits)
  have cut: "cut_middle cap ?ws = Inr (take ?k ?ws @ drop (length ?ws - ?k) ?ws)"
    using cut_middle_ok [OF fits] by (simp add: buffer_split_def)
  have "cap < int (length (strip_debug buf))"
    using assms length_strip_info [of "strip_debug buf"] by linarith
  moreover from this have "cap < int (length buf)"
    using length_strip_debug [of buf] by linarith
  ultimately have pass: "handle_pressure cap buf = cut_middle cap ?ws"
    using assms by (simp add: handle_pressure_def)
  have k2: "2 * ?k \<le> length ?ws"
    using fits by (simp add: buffer_split_def)
  have "length ?ws - 2 * ?k + ?k = length ?ws - ?k"
    using k2 by linarith
  then have tail: "drop (length ?ws - 2 * ?k) (drop ?k ?ws) = drop (length ?ws - ?k) ?ws"
    by (simp only: drop_drop)
  have "?ws = take ?k ?ws @ drop ?k ?ws"
    by (simp only: append_take_drop_id)
  also have "drop ?k ?ws = middle ?k ?ws @ drop (length ?ws - 2 * ?k) (drop ?k ?ws)"
    unfolding middle_def by (simp only: append_take_drop_id)
  finally have "?ws = take ?k ?ws @ middle ?k ?ws @ drop (length ?ws - ?k) ?ws"
    by (simp only: tail)
  with cut pass show ?thesis by (simp add: keep_ends_def)
qed

theorem middle_cut_keeps_ends_witness:
  "(4::int) < int (length (strip_info (strip_debug (map warn [0..<7]))))
   \<and> handle_pressure 4 (map warn [0..<7]) = Inr [warn 0, warn 1, warn 5, warn 6]"
proof -
  have over: "(4::int) < int (length (strip_info (strip_debug (map warn [0..<7]))))"
    by code_simp
  have kept: "keep_ends (nat (4 div 2)) (strip_info (strip_debug (map warn [0..<7])))
      = [warn 0, warn 1, warn 5, warn 6]"
    by code_simp
  from middle_cut_keeps_ends [OF over]
  have "handle_pressure 4 (map warn [0..<7])
      = Inr (keep_ends (nat (4 div 2)) (strip_info (strip_debug (map warn [0..<7]))))"
    by (rule conjunct1)
  then have "handle_pressure 4 (map warn [0..<7]) = Inr [warn 0, warn 1, warn 5, warn 6]"
    by (simp only: kept)
  with over show ?thesis by (intro conjI)
qed


section \<open>The pass never fails and respects the capacity\<close>

lemma cut_middle_fits:
  "m < int (length ws) \<Longrightarrow>
   cut_middle m ws = Inr (keep_ends (nat (m div 2)) ws)"
  using cut_middle_ok [OF split_twice_fits, of m ws]
  by (simp add: keep_ends_def buffer_split_def)

lemma length_keep_ends: "2 * k \<le> length ws \<Longrightarrow> length (keep_ends k ws) = 2 * k"
  unfolding keep_ends_def by simp

lemma handle_pressure_cases:
  "handle_pressure cap buf =
     (case stage_reached cap buf of
        Untouched \<Rightarrow> Inr buf
      | DebugShed \<Rightarrow> Inr (strip_debug buf)
      | InfoShed \<Rightarrow> Inr (strip_info (strip_debug buf))
      | MiddleCut \<Rightarrow> Inr (keep_ends (nat (cap div 2)) (strip_info (strip_debug buf))))"
  unfolding handle_pressure_def stage_reached_def
  by (simp add: cut_middle_fits)

lemma handle_pressure_total: "\<exists>b. handle_pressure cap buf = Inr b"
  unfolding handle_pressure_cases by (cases "stage_reached cap buf") simp_all

lemma cut_length:
  assumes "stage_reached cap buf = MiddleCut"
  shows "length (keep_ends (nat (cap div 2)) (strip_info (strip_debug buf))) = 2 * nat (cap div 2)"
proof -
  from assms have "cap < int (length (strip_info (strip_debug buf)))"
    unfolding stage_reached_def by (simp split: if_splits)
  then have "2 * nat (cap div 2) \<le> length (strip_info (strip_debug buf))"
    by linarith
  then show ?thesis by (rule length_keep_ends)
qed

lemma handle_pressure_bound:
  assumes "0 \<le> cap" and "handle_pressure cap buf = Inr b"
  shows "int (length b) \<le> cap"
proof (cases "stage_reached cap buf")
  case MiddleCut
  with assms(2) have "b = keep_ends (nat (cap div 2)) (strip_info (strip_debug buf))"
    by (simp add: handle_pressure_cases)
  with cut_length [OF MiddleCut] have "length b = 2 * nat (cap div 2)" by simp
  with assms(1) show ?thesis by linarith
qed (use assms(2) in \<open>auto simp: handle_pressure_cases stage_reached_def split: if_splits\<close>)

section \<open>No underflow in the middle cut\<close>

text \<open>
  C10. When the middle cut runs on a deque of more than \<open>capacity\<close> records, twice
  \<open>floor(capacity / 2)\<close> is at most the capacity and so at most the number of
  records; before each \<open>popleft\<close> and before each \<open>pop\<close> the deque is non-empty, both
  loops and the stage end without an exception, and so does every pass.
\<close>

theorem middle_cut_no_underflow:
  assumes "cap < int (length ws)"
  shows "2 * (cap div 2) \<le> cap
       \<and> 2 * nat (cap div 2) \<le> length ws
       \<and> (\<forall>i < nat (cap div 2). \<exists>old new. fill_head i ws [] = Inr (old, new) \<and> old \<noteq> [])
       \<and> (\<exists>new. fill_head (nat (cap div 2)) ws [] = Inr (drop (nat (cap div 2)) ws, new))
       \<and> (\<forall>j < nat (cap div 2). \<exists>old acc.
             fill_end j (drop (nat (cap div 2)) ws) [] = Inr (old, acc) \<and> old \<noteq> [])
       \<and> (\<exists>b. cut_middle cap ws = Inr b)
       \<and> (\<exists>b. handle_pressure cap buf = Inr b)"
proof -
  let ?k = "nat (cap div 2)"
  have twice: "2 * (cap div 2) \<le> cap" by linarith
  have less: "2 * ?k \<le> length ws" using assms by linarith
  have heads: "\<exists>old new. fill_head i ws [] = Inr (old, new) \<and> old \<noteq> []" if "i < ?k" for i
  proof -
    from that less have "i < length ws" by linarith
    then show ?thesis by (simp add: fill_head_ok)
  qed
  have head: "\<exists>new. fill_head ?k ws [] = Inr (drop ?k ws, new)"
    using less by (simp add: fill_head_ok)
  have tails: "\<exists>old acc. fill_end j (drop ?k ws) [] = Inr (old, acc) \<and> old \<noteq> []"
    if "j < ?k" for j
  proof -
    from that less have j: "j \<le> length (drop ?k ws)" and "0 < length (drop ?k ws) - j"
      by simp_all
    then have "take (length (drop ?k ws) - j) (drop ?k ws) \<noteq> []"
      by simp
    with fill_end_ok [OF j] show ?thesis by blast
  qed
  have cut: "\<exists>b. cut_middle cap ws = Inr b"
    using cut_middle_fits [OF assms] by blast
  from twice less heads head tails cut handle_pressure_total [of cap buf]
  show ?thesis by blast
qed

theorem middle_cut_no_underflow_witness:
  "(3::int) < int (length [''a'', ''b'', ''c'', ''d''])
   \<and> cut_middle 3 [''a'', ''b'', ''c'', ''d''] = Inr [''a'', ''d'']
   \<and> fill_head 0 [''a'', ''b'', ''c'', ''d''] [] = Inr ([''a'', ''b'', ''c'', ''d''], [])
   \<and> fill_end 0 [''b'', ''c'', ''d''] [] = Inr ([''b'', ''c'', ''d''], [])"
  using middle_cut_no_underflow [of 3 "[''a'', ''b'', ''c'', ''d'']"]
  by (simp add: cut_middle_def buffer_split_def popleft_def pop_def)


section \<open>The drain loop and the buffer\<close>

lemma produce_loop_shrinks:
  "produce_loop fmt io p buf t errs = (p', buf', t', errs') \<Longrightarrow> length buf' \<le> length buf"
proof (induction buf arbitrary: p t errs)
  case Nil
  then show ?case by simp
next
  case (Cons r rest)
  show ?case
  proof (cases "p \<or> \<not> connected t")
    case True
    with Cons.prems show ?thesis by auto
  next
    case False
    obtain t1 p1 x where body: "produce_record fmt io r t = (t1, p1, x)"
      by (cases "produce_record fmt io r t") auto
    show ?thesis
    proof (cases x)
      case None
      with False body Cons.prems
      have "produce_loop fmt io p1 rest t1 errs = (p', buf', t', errs')" by simp
      from Cons.IH [OF this] show ?thesis by simp
    next
      case (Some e)
      with False body Cons.prems show ?thesis by auto
    qed
  qed
qed

lemma produce_loop_empty: "produce_loop fmt io p [] t errs = (p, [], t, errs)"
  by simp

lemma resumeProducing_no_growth: "no_growth s (fst (resumeProducing fmt io p s))"
proof (cases "handler p")
  case False
  then show ?thesis by (simp add: resumeProducing_def no_growth_def)
next
  case True
  obtain p' buf' t' errs' where
    loop: "produce_loop fmt io False (buffer s) (transports s (transport p)) (stderr s)
             = (p', buf', t', errs')"
    using prod_cases4 by blast
  from produce_loop_shrinks [OF loop] True loop show ?thesis
    by (simp add: resumeProducing_def no_growth_def)
qed

lemma resumeProducing_failures:
  "failures (fst (resumeProducing fmt io p s)) = failures s"
  by (simp add: resumeProducing_def split: prod.splits)

lemma no_growth_refl: "no_growth s s"
  by (simp add: no_growth_def)

lemma no_growth_trans: "no_growth s s1 \<Longrightarrow> no_growth s1 s2 \<Longrightarrow> no_growth s s2"
  by (auto simp: no_growth_def)

lemma no_growth_same:
  "maximum_buffer s1 = maximum_buffer s \<Longrightarrow> buffer s1 = buffer s \<Longrightarrow> no_growth s s1"
  by (simp add: no_growth_def)

lemma no_growth_waiter: "no_growth s s1 \<Longrightarrow> no_growth s (s1\<lparr>connection_waiter := w\<rparr>)"
  by (simp add: no_growth_def)

lemma start_producer_no_growth: "no_growth s (fst (start_producer fmt io tr s))"
proof -
  let ?p = "\<lparr>transport = tr, handler = True, paused = True\<rparr>"
  let ?s1 = "s\<lparr>producer := Some ?p\<rparr>"
  show ?thesis
  proof (cases "registerProducer (transports ?s1 tr)")
    case (Inl e)
    then show ?thesis by (simp add: start_producer_def no_growth_def)
  next
    case (Inr t)
    let ?s2 = "?s1\<lparr>transports := (transports ?s1)(tr := t)\<rparr>"
    have base: "no_growth s ?s2" by (simp add: no_growth_def)
    have step: "no_growth s (fst (resumeProducing fmt io ?p ?s2))"
      by (rule no_growth_trans [OF base resumeProducing_no_growth])
    obtain s3 x where r: "resumeProducing fmt io ?p ?s2 = (s3, x)"
      by (cases "resumeProducing fmt io ?p ?s2") auto
    with step have "no_growth s s3" by simp
    with Inr r show ?thesis
      by (cases x) (simp_all add: start_producer_def no_growth_waiter)
  qed
qed

lemma writer_no_growth: "no_growth s (fst (writer fmt io tr s))"
proof (cases "producer s")
  case None
  then show ?thesis by (simp add: writer_def start_producer_no_growth)
next
  case (Some p)
  show ?thesis
  proof (cases "transport p = tr")
    case True
    obtain s1 x where r: "resumeProducing fmt io p s = (s1, x)"
      by (cases "resumeProducing fmt io p s") auto
    with resumeProducing_no_growth [of s fmt io p] have "no_growth s s1" by simp
    with Some True r show ?thesis
      by (cases x) (simp_all add: writer_def no_growth_waiter)
  next
    case False
    let ?s1 = "s\<lparr>producer := Some (stopProducing p)\<rparr>"
    have "no_growth s ?s1" by (simp add: no_growth_def)
    from no_growth_trans [OF this start_producer_no_growth]
    have "no_growth s (fst (start_producer fmt io tr ?s1))" .
    with Some False show ?thesis by (simp add: writer_def)
  qed
qed

lemma connect_stopped_idle:
  "connection_waiter s = None \<Longrightarrow>
   connect_stopped depth s =
     (s\<lparr>stderr := stderr s @ replicate depth CancelledError\<rparr>,
      Some (if depth = 0 then RecursionError else AttributeError))"
proof (induction depth arbitrary: s)
  case 0
  then show ?case by simp
next
  case (Suc depth)
  let ?s2 = "s\<lparr>connection_waiter := Some (Broken CancelledError),
               stderr := stderr s @ [CancelledError], connection_waiter := None\<rparr>"
  have idle: "connection_waiter ?s2 = None" by simp
  from Suc.prems have same: "s\<lparr>connection_waiter := None\<rparr> = s" by simp
  have "?s2\<lparr>stderr := stderr ?s2 @ replicate depth CancelledError\<rparr>
      = (s\<lparr>connection_waiter := None\<rparr>)\<lparr>stderr := stderr s @ replicate (Suc depth) CancelledError\<rparr>"
    by simp
  then have state: "?s2\<lparr>stderr := stderr ?s2 @ replicate depth CancelledError\<rparr>
      = s\<lparr>stderr := stderr s @ replicate (Suc depth) CancelledError\<rparr>"
    by (simp only: same)
  from Suc.IH [OF idle] Suc.prems state show ?case by simp
qed

lemma connect_stopped_busy:
  "connection_waiter s \<noteq> None \<Longrightarrow> connect_stopped (Suc depth) s = (s, None)"
  by simp

lemma recursion_limit_pos: "recursion_limit \<noteq> 0"
  by (simp add: recursion_limit_def)

lemma connect_on_stopped:
  assumes "stopped s" and "service s = None" and "connection_waiter s = None"
  shows "connect fmt io s =
    (s\<lparr>stderr := stderr s @ replicate recursion_limit CancelledError\<rparr>, Some AttributeError)"
  using assms by (simp add: connect_def connect_stopped_idle recursion_limit_pos)

lemma fire_no_growth: "no_growth s (fst (writer fmt io tr s)) \<Longrightarrow> no_growth s (fire fmt io tr s)"
  unfolding fire_def
  by (cases "writer fmt io tr s") (auto simp: no_growth_waiter split: option.splits)

lemma connect_no_growth: "no_growth s (fst (connect fmt io s))"
proof (cases "connection_waiter s \<noteq> None")
  case True
  then show ?thesis by (simp add: connect_def no_growth_refl)
next
  case False
  show ?thesis
  proof (cases "service s")
    case None
    with False show ?thesis
      by (simp add: connect_def connect_stopped_idle no_growth_def)
  next
    case (Some tr)
    let ?s1 = "s\<lparr>connection_waiter := Some Waiting\<rparr>"
    have "no_growth s ?s1" by (simp add: no_growth_def)
    from no_growth_trans [OF this fire_no_growth [OF writer_no_growth]]
    have "no_growth s (fire fmt io tr ?s1)" .
    with False Some show ?thesis by (simp add: connect_def)
  qed
qed

lemma connect_running_returns: "\<not> stopped s \<Longrightarrow> snd (connect fmt io s) = None"
  by (simp add: connect_def split: option.splits)

lemma connection_made_no_growth: "no_growth s (connection_made fmt io tr s)"
proof -
  let ?s1 = "s\<lparr>service := Some tr,
               transports := (transports s)(tr := (transports s tr)\<lparr>connected := True\<rparr>)\<rparr>"
  have base: "no_growth s ?s1" by (simp add: no_growth_def)
  have "no_growth s (fire fmt io tr ?s1)"
    by (rule no_growth_trans [OF base fire_no_growth [OF writer_no_growth]])
  with base show ?thesis by (simp add: connection_made_def Let_def no_growth_refl)
qed

lemma connection_failed_no_growth: "no_growth s (connection_failed fmt io e s)"
proof (cases "connection_waiter s = Some Waiting")
  case True
  let ?s1 = "s\<lparr>stderr := stderr s @ [e], connection_waiter := None\<rparr>"
  have "no_growth s ?s1" by (simp add: no_growth_def)
  from no_growth_trans [OF this connect_no_growth]
  have "no_growth s (fst (connect fmt io ?s1))" .
  with True show ?thesis by (simp add: connection_failed_def)
next
  case False
  then show ?thesis by (simp add: connection_failed_def no_growth_refl)
qed

lemma connection_lost_no_growth: "no_growth s (connection_lost s)"
  by (simp add: connection_lost_def no_growth_def split: option.splits)

lemma close_no_growth: "no_growth s (close fmt io s)"
proof -
  let ?s1 = "(connection_lost s)\<lparr>stopped := True\<rparr>"
  from connection_lost_no_growth [of s] have "no_growth s ?s1"
    by (simp add: no_growth_def)
  from no_growth_trans [OF this connection_failed_no_growth] show ?thesis
    by (simp add: close_def)
qed

lemma within_capacity_no_growth:
  "within_capacity s \<Longrightarrow> no_growth s s' \<Longrightarrow> within_capacity s'"
  by (auto simp: within_capacity_def no_growth_def)

lemma relieve_within:
  assumes "0 \<le> maximum_buffer s"
  shows "within_capacity (relieve_with handle_pressure s)"
    and "maximum_buffer (relieve_with handle_pressure s) = maximum_buffer s"
proof -
  obtain b where b: "handle_pressure (maximum_buffer s) (buffer s) = Inr b"
    using handle_pressure_total by blast
  from handle_pressure_bound [OF assms b] b
  show "within_capacity (relieve_with handle_pressure s)"
    by (simp add: relieve_with_def within_capacity_def)
  from b show "maximum_buffer (relieve_with handle_pressure s) = maximum_buffer s"
    by (simp add: relieve_with_def)
qed

lemma emit_within:
  assumes "0 \<le> maximum_buffer s"
  shows "within_capacity (fst (emit fmt io s record))"
    and "maximum_buffer (fst (emit fmt io s record)) = maximum_buffer s"
proof -
  let ?s1 = "append_record s record"
  let ?s2 = "relieve_with handle_pressure ?s1"
  have cap1: "maximum_buffer ?s1 = maximum_buffer s" by (simp add: append_record_def)
  with assms have nonneg: "0 \<le> maximum_buffer ?s1" by simp
  note w = relieve_within [OF nonneg]
  have g: "no_growth ?s2 (fst (connect fmt io ?s2))" by (rule connect_no_growth)
  from within_capacity_no_growth [OF w(1) g]
  show "within_capacity (fst (emit fmt io s record))"
    by (simp add: emit_def emit_with_def)
  from g w(2) cap1 show "maximum_buffer (fst (emit fmt io s record)) = maximum_buffer s"
    by (simp add: emit_def emit_with_def no_growth_def)
qed

lemma step_within:
  assumes "0 \<le> maximum_buffer s" and "within_capacity s"
  shows "within_capacity (step fmt io s ev) \<and> maximum_buffer (step fmt io s ev) = maximum_buffer s"
proof (cases ev)
  case (Emit r)
  with emit_within [OF assms(1)] show ?thesis by simp
next
  case (ConnectionMade tr)
  with connection_made_no_growth [of s fmt io tr] assms(2) show ?thesis
    by (auto simp: within_capacity_def no_growth_def)
next
  case (ConnectionFailed e)
  with connection_failed_no_growth [of s fmt io e] assms(2) show ?thesis
    by (auto simp: within_capacity_def no_growth_def)
next
  case ConnectionLost
  with connection_lost_no_growth [of s] assms(2) show ?thesis
    by (auto simp: within_capacity_def no_growth_def)
next
  case TransportPause
  with assms(2) show ?thesis
    by (auto simp: within_capacity_def split: option.splits)
next
  case TransportResume
  show ?thesis
  proof (cases "producer s")
    case None
    with TransportResume assms(2) show ?thesis by simp
  next
    case (Some p)
    with TransportResume resumeProducing_no_growth [of s fmt io p] assms(2) show ?thesis
      by (auto simp: within_capacity_def no_growth_def)
  qed
next
  case Close
  with close_no_growth [of s fmt io] assms(2) show ?thesis
    by (auto simp: within_capacity_def no_growth_def)
qed

lemma run_within:
  assumes "0 \<le> maximum_buffer s" and "within_capacity s"
  shows "within_capacity (run fmt io s evs) \<and> maximum_buffer (run fmt io s evs) = maximum_buffer s"
  using assms
proof (induction evs arbitrary: s)
  case Nil
  then show ?case by (simp add: run_def)
next
  case (Cons ev evs)
  from step_within [OF Cons.prems]
  have 1: "within_capacity (step fmt io s ev)"
    and 2: "maximum_buffer (step fmt io s ev) = maximum_buffer s" by simp_all
  from 2 Cons.prems(1) have 3: "0 \<le> maximum_buffer (step fmt io s ev)" by simp
  from Cons.IH [OF 3 1] 2 show ?case by (simp add: run_def)
qed

lemma constructed_within:
  "within_capacity (constructed fmt io cap) = (0 \<le> cap)"
  "maximum_buffer (constructed fmt io cap) = cap"
  by (simp_all add: constructed_def connect_def blank_def within_capacity_def)

section \<open>The capacity bound\<close>

text \<open>
  C3. For a capacity that is not negative, a pass that returns leaves at most
  \<open>capacity\<close> records, and a pass that reaches the middle cut leaves exactly
  \<open>2 * floor(capacity / 2)\<close>. From construction on, after any sequence of events the
  buffer holds at most \<open>capacity\<close> records; inside \<open>emit\<close> the append may bring it to
  \<open>capacity + 1\<close>, and the pass that follows brings it back.
\<close>

theorem capacity_bound:
  assumes "0 \<le> cap"
  shows "(\<forall>b. handle_pressure cap buf = Inr b \<longrightarrow> int (length b) \<le> cap)
       \<and> (stage_reached cap buf = MiddleCut \<longrightarrow>
            (\<exists>b. handle_pressure cap buf = Inr b \<and> int (length b) = 2 * (cap div 2)))
       \<and> int (length (buffer (run fmt io (constructed fmt io cap) evs))) \<le> cap
       \<and> int (length (buffer (append_record (run fmt io (constructed fmt io cap) evs) record)))
            \<le> cap + 1
       \<and> int (length (buffer (relieve_with handle_pressure
            (append_record (run fmt io (constructed fmt io cap) evs) record)))) \<le> cap"
proof -
  let ?s = "run fmt io (constructed fmt io cap) evs"
  have pass: "\<forall>b. handle_pressure cap buf = Inr b \<longrightarrow> int (length b) \<le> cap"
    using handle_pressure_bound [OF assms] by blast
  have cut: "stage_reached cap buf = MiddleCut \<longrightarrow>
      (\<exists>b. handle_pressure cap buf = Inr b \<and> int (length b) = 2 * (cap div 2))"
  proof
    assume m: "stage_reached cap buf = MiddleCut"
    from cut_length [OF m] assms
    have "int (length (keep_ends (nat (cap div 2)) (strip_info (strip_debug buf))))
        = 2 * (cap div 2)" by simp
    with m show "\<exists>b. handle_pressure cap buf = Inr b \<and> int (length b) = 2 * (cap div 2)"
      by (simp add: handle_pressure_cases)
  qed
  have start: "0 \<le> maximum_buffer (constructed fmt io cap)"
    "within_capacity (constructed fmt io cap)"
    using assms by (simp_all add: constructed_within)
  from run_within [OF start]
  have inv: "within_capacity ?s" and cap: "maximum_buffer ?s = cap"
    by (simp_all add: constructed_within)
  from inv cap have rest: "int (length (buffer ?s)) \<le> cap"
    by (simp add: within_capacity_def)
  then have transient: "int (length (buffer (append_record ?s record))) \<le> cap + 1"
    by (simp add: append_record_def)
  have "0 \<le> maximum_buffer (append_record ?s record)"
    using cap assms by (simp add: append_record_def)
  from relieve_within(1) [OF this] cap
  have after: "int (length (buffer (relieve_with handle_pressure (append_record ?s record)))) \<le> cap"
    by (simp add: within_capacity_def relieve_within(2) append_record_def relieve_with_def
        split: sum.splits)
  from pass cut rest transient after show ?thesis by blast
qed


theorem capacity_bound_witness:
  "(0::int) \<le> 3
   \<and> stage_reached 3 (map warn [0..<5]) = MiddleCut
   \<and> handle_pressure 3 (map warn [0..<5]) = Inr [warn 0, warn 4]
   \<and> int (length (buffer (run plain_format accepting (constructed plain_format accepting 3)
         (warnings 0 5)))) \<le> 3"
proof -
  have nonneg: "(0::int) \<le> 3" by simp
  note bound = capacity_bound [OF nonneg, of "map warn [0..<5]" plain_format accepting
      "warnings 0 5" "warn 5"]
  from bound have rest: "int (length (buffer (run plain_format accepting
      (constructed plain_format accepting 3) (warnings 0 5)))) \<le> 3"
    by blast
  have reached: "stage_reached 3 (map warn [0..<5]) = MiddleCut"
    by code_simp
  have pass: "handle_pressure 3 (map warn [0..<5]) = Inr [warn 0, warn 4]"
    by code_simp
  from nonneg reached pass rest show ?thesis by (intro conjI)
qed

section \<open>Scenario C\<close>

text \<open>
  C4. With capacity 10 and no connection yet, emitting \<open>warn 0\<close> to \<open>warn 19\<close> one at
  a time leaves \<open>warn 0\<close> to \<open>warn 4\<close> followed by \<open>warn 15\<close> to \<open>warn 19\<close> in the
  buffer; when the connection is made, these ten are written in that order, each as its
  text and a newline.
\<close>

theorem scenario_c:
  "buffer (run plain_format accepting (constructed plain_format accepting 10) (warnings 0 20))
     = [warn 0, warn 1, warn 2, warn 3, warn 4, warn 15, warn 16, warn 17, warn 18, warn 19]
   \<and> buffer (run plain_format accepting (constructed plain_format accepting 10)
        (warnings 0 20 @ [ConnectionMade 0])) = []
   \<and> written (transports (run plain_format accepting (constructed plain_format accepting 10)
        (warnings 0 20 @ [ConnectionMade 0])) 0)
     = [ascii ''warn 0'', newline, ascii ''warn 1'', newline, ascii ''warn 2'', newline,
        ascii ''warn 3'', newline, ascii ''warn 4'', newline, ascii ''warn 15'', newline,
        ascii ''warn 16'', newline, ascii ''warn 17'', newline, ascii ''warn 18'', newline,
        ascii ''warn 19'', newline]"
proof -
  have kept: "buffer (run plain_format accepting (constructed plain_format accepting 10)
      (warnings 0 20))
    = [warn 0, warn 1, warn 2, warn 3, warn 4, warn 15, warn 16, warn 17, warn 18, warn 19]"
    by code_simp
  have drained: "buffer (run plain_format accepting (constructed plain_format accepting 10)
      (warnings 0 20 @ [ConnectionMade 0])) = []"
    by code_simp
  have sent: "written (transports (run plain_format accepting
      (constructed plain_format accepting 10) (warnings 0 20 @ [ConnectionMade 0])) 0)
    = [ascii ''warn 0'', newline, ascii ''warn 1'', newline, ascii ''warn 2'', newline,
       ascii ''warn 3'', newline, ascii ''warn 4'', newline, ascii ''warn 15'', newline,
       ascii ''warn 16'', newline, ascii ''warn 17'', newline, ascii ''warn 18'', newline,
       ascii ''warn 19'', newline]"
    by code_simp
  from kept drained sent show ?thesis by (intro conjI)
qed

section \<open>Emit and failures of the pass\<close>

lemma start_producer_failures: "failures (fst (start_producer fmt io tr s)) = failures s"
  unfolding start_producer_def Let_def
  by (cases "registerProducer (transports s tr)")
     (auto simp: resumeProducing_def split: prod.splits option.splits)

lemma writer_failures: "failures (fst (writer fmt io tr s)) = failures s"
  unfolding writer_def
  by (auto simp: start_producer_failures resumeProducing_def split: option.splits prod.splits)

lemma fire_failures: "failures (fire fmt io tr s) = failures s"
proof -
  obtain s1 x where w: "writer fmt io tr s = (s1, x)"
    by (cases "writer fmt io tr s") auto
  with writer_failures [of fmt io tr s] have "failures s1 = failures s" by simp
  with w show ?thesis by (cases x) (simp_all add: fire_def)
qed

lemma connect_failures: "failures (fst (connect fmt io s)) = failures s"
  by (simp add: connect_def fire_failures connect_stopped_idle split: option.splits)

lemma connect_empty:
  assumes "buffer s = []"
  shows "buffer (fst (connect fmt io s)) = []"
  using connect_no_growth [of s fmt io] assms by (simp add: no_growth_def)

lemma emit_returns_while_running:
  "\<not> stopped s \<Longrightarrow> snd (emit_with hp fmt io s record) = None"
proof -
  assume "\<not> stopped s"
  then have "\<not> stopped (relieve_with hp (append_record s record))"
    by (simp add: relieve_with_def append_record_def split: sum.splits)
  then show ?thesis by (simp add: emit_with_def connect_running_returns)
qed

lemma emit_clears_on_failure:
  assumes "hp (maximum_buffer s) (buffer s @ [record]) = Inl e"
  shows "buffer (fst (emit_with hp fmt io s record)) = []"
    and "failures (fst (emit_with hp fmt io s record))
           = failures s @ [(''Failed clearing backpressure'', e)]"
proof -
  let ?s2 = "relieve_with hp (append_record s record)"
  from assms have b: "buffer ?s2 = []"
    and f: "failures ?s2 = failures s @ [(''Failed clearing backpressure'', e)]"
    by (simp_all add: relieve_with_def append_record_def)
  from connect_empty [OF b] show "buffer (fst (emit_with hp fmt io s record)) = []"
    by (simp add: emit_with_def)
  from connect_failures [of fmt io ?s2] f
  show "failures (fst (emit_with hp fmt io s record))
      = failures s @ [(''Failed clearing backpressure'', e)]"
    by (simp add: emit_with_def)
qed

lemma close_while_waiting:
  assumes "service s = None" and "connection_waiter s = Some Waiting"
  shows "close fmt io s =
    s\<lparr>stopped := True,
       stderr := stderr s @ CancelledError # replicate recursion_limit CancelledError,
       connection_waiter := None\<rparr>"
proof -
  let ?s1 = "s\<lparr>stopped := True\<rparr>"
  let ?s2 = "?s1\<lparr>stderr := stderr ?s1 @ [CancelledError], connection_waiter := None\<rparr>"
  have "connect fmt io ?s2 =
      (?s2\<lparr>stderr := stderr ?s2 @ replicate recursion_limit CancelledError\<rparr>, Some AttributeError)"
    using assms(1) by (intro connect_on_stopped) simp_all
  with assms show ?thesis
    by (simp add: close_def connection_lost_def connection_failed_def)
qed

lemma emit_on_stopped:
  assumes "stopped s" and "service s = None" and "connection_waiter s = None"
  shows "snd (emit_with hp fmt io s record) = Some AttributeError"
proof -
  let ?s2 = "relieve_with hp (append_record s record)"
  from assms have "stopped ?s2" and "service ?s2 = None" and "connection_waiter ?s2 = None"
    by (simp_all add: relieve_with_def append_record_def split: sum.splits)
  from connect_on_stopped [OF this] show ?thesis by (simp add: emit_with_def)
qed

text \<open>
  C5 on a closed handler. A handler of capacity 10 is constructed and closed before any
  connection was made; \<open>close\<close> leaves the service stopped and no Deferred kept. The
  next \<open>emit\<close> appends its record, the pass leaves the buffer alone, and \<open>_connect\<close>,
  which is called outside the \<open>try\<close>, raises \<open>AttributeError\<close> to the caller of
  \<open>emit\<close>.
\<close>

theorem emit_after_close_raises:
  "stopped (run plain_format accepting (constructed plain_format accepting 10) [Close])
   \<and> service (run plain_format accepting (constructed plain_format accepting 10) [Close]) = None
   \<and> connection_waiter (run plain_format accepting (constructed plain_format accepting 10)
        [Close]) = None
   \<and> snd (emit plain_format accepting
        (run plain_format accepting (constructed plain_format accepting 10) [Close]) (warn 0))
     = Some AttributeError
   \<and> buffer (fst (emit plain_format accepting
        (run plain_format accepting (constructed plain_format accepting 10) [Close]) (warn 0)))
     = [warn 0]"
proof -
  let ?c = "constructed plain_format accepting 10"
  let ?s = "run plain_format accepting ?c [Close]"
  have c: "service ?c = None" "connection_waiter ?c = Some Waiting" "buffer ?c = []"
    "maximum_buffer ?c = 10"
    by (simp_all add: constructed_def connect_def blank_def)
  have s: "?s = ?c\<lparr>stopped := True,
      stderr := stderr ?c @ CancelledError # replicate recursion_limit CancelledError,
      connection_waiter := None\<rparr>"
    using close_while_waiting [OF c(1,2)] by (simp add: run_def)
  have 1: "stopped ?s" and 2: "service ?s = None" and 3: "connection_waiter ?s = None"
    using c by (simp_all only: s) simp_all
  from emit_on_stopped [OF 1 2 3]
  have 4: "snd (emit plain_format accepting ?s (warn 0)) = Some AttributeError"
    by (simp add: emit_def)
  have "buffer ?s = []" and "maximum_buffer ?s = 10"
    using c by (simp_all only: s) simp_all
  then have "relieve_with handle_pressure (append_record ?s (warn 0))
      = append_record ?s (warn 0)"
    by (simp add: relieve_with_def append_record_def handle_pressure_def)
  with connect_on_stopped [of "append_record ?s (warn 0)" plain_format accepting] 1 2 3
    \<open>buffer ?s = []\<close>
  have 5: "buffer (fst (emit plain_format accepting ?s (warn 0))) = [warn 0]"
    by (simp add: emit_def emit_with_def append_record_def)
  from 1 2 3 4 5 show ?thesis by (intro conjI)
qed

section \<open>Choosing the endpoint\<close>

lemma select_endpoint_ipv4:
  "ip_address host = Inr IPv4Address \<Longrightarrow>
   select_endpoint ip_address g host port (Some r) = Inr (TCP4ClientEndpoint r host port)"
  by (simp add: select_endpoint_def)

lemma select_endpoint_ipv6:
  "ip_address host = Inr IPv6Address \<Longrightarrow>
   select_endpoint ip_address g host port (Some r) = Inr (TCP6ClientEndpoint r host port)"
  by (simp add: select_endpoint_def)

lemma select_endpoint_hostname_default:
  "ip_address host = Inl ValueError \<Longrightarrow>
   select_endpoint ip_address g host port None = Inr (HostnameEndpoint g host port)"
  by (simp add: select_endpoint_def)

lemma select_endpoint_hostname_injected:
  "ip_address host = Inl ValueError \<Longrightarrow>
   select_endpoint ip_address g host port (Some r) = Inl UnboundLocalError"
  by (simp add: select_endpoint_def)

text \<open>
  C9 at the hosts \<open>127.0.0.1\<close>, \<open>::1\<close> and \<open>logs.example.com\<close>, with the global
  reactor \<open>0\<close> and the injected reactor \<open>1\<close>. The two literals get their endpoint on the
  injected reactor, and a host name gets a \<open>HostnameEndpoint\<close> when no reactor is
  injected. With a reactor injected, construction on a host name raises
  \<open>UnboundLocalError\<close>: the \<open>except\<close> branch reads \<open>reactor\<close>, not \<open>_reactor\<close>.
\<close>

theorem hostname_with_injected_reactor:
  "select_endpoint sample_ip_address 0 ''127.0.0.1'' 9000 (Some 1)
     = Inr (TCP4ClientEndpoint 1 ''127.0.0.1'' 9000)
   \<and> select_endpoint sample_ip_address 0 ''::1'' 9000 (Some 1)
     = Inr (TCP6ClientEndpoint 1 ''::1'' 9000)
   \<and> select_endpoint sample_ip_address 0 ''logs.example.com'' 9000 None
     = Inr (HostnameEndpoint 0 ''logs.example.com'' 9000)
   \<and> select_endpoint sample_ip_address 0 ''logs.example.com'' 9000 (Some 1)
     = Inl UnboundLocalError
   \<and> init sample_ip_address plain_format accepting 0 ''logs.example.com'' 9000 1000 (Some 1)
     = Inl UnboundLocalError"
  by (simp add: init_def select_endpoint_def sample_ip_address_def)


section \<open>What the drain loop writes\<close>

lemma encode_utf8_samples:
  "encode_utf8 [0x48, 0xE9, 0x20AC, 0x1F600]
     = Inr [0x48, 0xC3, 0xA9, 0xE2, 0x82, 0xAC, 0xF0, 0x9F, 0x98, 0x80]"
  "encode_utf8 [0x48, 0xD800] = Inl UnicodeEncodeError"
  by (simp_all add: encode_char_def)

lemma transport_write_accepted:
  "transport_write io t bs = (t', p', None) \<Longrightarrow> written t' = written t @ [bs]"
  by (auto simp: transport_write_def Let_def)

lemma transport_write_raised:
  "transport_write io t bs = (t', p', Some e) \<Longrightarrow> written t' = written t"
  by (auto simp: transport_write_def Let_def)

lemma transport_write_quiet:
  "\<forall>t b. \<not> calls_pause (io t b) \<Longrightarrow> transport_write io t bs = (t', p', x) \<Longrightarrow> \<not> p'"
  by (auto simp: transport_write_def Let_def)

lemma produce_record_delivered:
  assumes "produce_record fmt io r t = (t', p', None)"
  shows "\<exists>bs. render fmt r = Inr bs \<and> written t' = written t @ [bs, newline]"
proof (cases "render fmt r")
  case (Inl e)
  with assms show ?thesis by (simp add: produce_record_def)
next
  case (Inr bs)
  obtain t1 p1 x1 where w1: "transport_write io t bs = (t1, p1, x1)"
    using prod_cases3 by blast
  obtain t2 p2 x2 where w2: "transport_write io t1 newline = (t2, p2, x2)"
    using prod_cases3 by blast
  from assms Inr w1 w2 have x1: "x1 = None" and x2: "x2 = None" and t': "t' = t2"
    by (auto simp: produce_record_def split: option.splits)
  from transport_write_accepted [OF w1 [unfolded x1]]
    transport_write_accepted [OF w2 [unfolded x2]] t' Inr
  show ?thesis by simp
qed

lemma produce_record_failed:
  assumes "produce_record fmt io r t = (t', p', Some e)"
  shows "written t' = written t
       \<or> (\<exists>bs. render fmt r = Inr bs \<and> written t' = written t @ [bs])"
proof (cases "render fmt r")
  case (Inl e')
  with assms show ?thesis by (simp add: produce_record_def)
next
  case (Inr bs)
  obtain t1 p1 x1 where w1: "transport_write io t bs = (t1, p1, x1)"
    using prod_cases3 by blast
  obtain t2 p2 x2 where w2: "transport_write io t1 newline = (t2, p2, x2)"
    using prod_cases3 by blast
  show ?thesis
  proof (cases x1)
    case None
    with assms Inr w1 w2 have "x2 = Some e" and "t' = t2"
      by (auto simp: produce_record_def)
    with transport_write_raised [of io t1 newline t2 p2 e] w2
      transport_write_accepted [OF w1 [unfolded None]] Inr
    show ?thesis by simp
  next
    case (Some e1)
    with assms Inr w1 have "t' = t1" by (auto simp: produce_record_def)
    with transport_write_raised [of io t bs t1 p1 e1] w1 Some show ?thesis by simp
  qed
qed

lemma produce_record_quiet:
  assumes "\<forall>t b. \<not> calls_pause (io t b)" and "produce_record fmt io r t = (t', p', x)"
  shows "\<not> p'"
proof (cases "render fmt r")
  case (Inl e)
  with assms(2) show ?thesis by (simp add: produce_record_def)
next
  case (Inr bs)
  obtain t1 p1 x1 where w1: "transport_write io t bs = (t1, p1, x1)"
    using prod_cases3 by blast
  obtain t2 p2 x2 where w2: "transport_write io t1 newline = (t2, p2, x2)"
    using prod_cases3 by blast
  from transport_write_quiet [OF assms(1) w1] transport_write_quiet [OF assms(1) w2]
  have "\<not> p1" and "\<not> p2" .
  with assms(2) Inr w1 w2 show ?thesis
    by (cases x1) (auto simp: produce_record_def)
qed

lemma chunks_Cons: "chunks (bs # bss) = [bs, newline] @ chunks bss"
  by (simp add: chunks_def)

lemma produce_loop_trace:
  "produce_loop fmt io p buf t errs = (p', buf', t', errs') \<Longrightarrow>
   \<exists>n bss rest. drained fmt buf t errs buf' t' errs' n bss rest"
proof (induction buf arbitrary: p t errs)
  case Nil
  then have "drained fmt [] t errs buf' t' errs' 0 [] []"
    by (simp add: drained_def chunks_def)
  then show ?case by blast
next
  case (Cons r rs)
  show ?case
  proof (cases "p \<or> \<not> connected t")
    case True
    with Cons.prems have "drained fmt (r # rs) t errs buf' t' errs' 0 [] []"
      by (auto simp: drained_def chunks_def)
    then show ?thesis by blast
  next
    case False
    obtain t1 p1 x where body: "produce_record fmt io r t = (t1, p1, x)"
      using prod_cases3 by blast
    show ?thesis
    proof (cases x)
      case None
      from produce_record_delivered [OF body [unfolded None]]
      obtain bs where bs: "render fmt r = Inr bs" "written t1 = written t @ [bs, newline]"
        by blast
      from False body None Cons.prems
      have "produce_loop fmt io p1 rs t1 errs = (p', buf', t', errs')" by simp
      from Cons.IH [OF this]
      obtain n bss rest where d: "drained fmt rs t1 errs buf' t' errs' n bss rest"
        by blast
      from d bs have "drained fmt (r # rs) t errs buf' t' errs' (Suc n) (bs # bss) rest"
        unfolding drained_def by (simp add: chunks_Cons)
      then show ?thesis by blast
    next
      case (Some e)
      with False body Cons.prems
      have res: "buf' = rs" "t' = t1" "errs' = errs @ [e]" by auto
      from produce_record_failed [OF body [unfolded Some]]
      have "written t1 = written t
          \<or> (\<exists>bs. render fmt r = Inr bs \<and> written t1 = written t @ [bs])" .
      then show ?thesis
      proof
        assume "written t1 = written t"
        with res have "drained fmt (r # rs) t errs buf' t' errs' 0 [] []"
          by (simp add: drained_def chunks_def)
        then show ?thesis by blast
      next
        assume "\<exists>bs. render fmt r = Inr bs \<and> written t1 = written t @ [bs]"
        then obtain bs where "render fmt r = Inr bs" "written t1 = written t @ [bs]"
          by blast
        with res have "drained fmt (r # rs) t errs buf' t' errs' 0 [] [bs]"
          by (simp add: drained_def chunks_def)
        then show ?thesis by blast
      qed
    qed
  qed
qed

lemma produce_loop_quiet:
  assumes "\<forall>t b. \<not> calls_pause (io t b)"
  shows "produce_loop fmt io False buf t errs = (p', buf', t', errs') \<Longrightarrow> \<not> p'"
proof (induction buf arbitrary: t errs)
  case Nil
  then show ?case by simp
next
  case (Cons r rs)
  show ?case
  proof (cases "connected t")
    case False
    with Cons.prems show ?thesis by simp
  next
    case True
    obtain t1 p1 x where body: "produce_record fmt io r t = (t1, p1, x)"
      using prod_cases3 by blast
    from produce_record_quiet [OF assms body] have p1: "\<not> p1" .
    show ?thesis
    proof (cases x)
      case None
      with True body p1 Cons.prems
      have "produce_loop fmt io False rs t1 errs = (p', buf', t', errs')" by simp
      from Cons.IH [OF this] show ?thesis .
    next
      case (Some e)
      with True body p1 Cons.prems show ?thesis by auto
    qed
  qed
qed

lemma resumeProducing_loop:
  assumes "handler p"
    and "produce_loop fmt io False (buffer s) (transports s (transport p)) (stderr s)
           = (p', buf', t', errs')"
  shows "resumeProducing fmt io p s =
      (s\<lparr>producer := Some (p\<lparr>paused := p'\<rparr>), buffer := buf',
         transports := (transports s)(transport p := t'), stderr := errs'\<rparr>, None)"
  using assms by (simp add: resumeProducing_def)


section \<open>A failure in the drain loop\<close>

lemma step_fails_iff:
  "step_fails fmt io r t e \<longleftrightarrow> (\<exists>t' p'. produce_record fmt io r t = (t', p', Some e))"
proof (cases "render fmt r")
  case (Inl e')
  then show ?thesis by (auto simp: step_fails_def produce_record_def)
next
  case (Inr bs)
  obtain t1 p1 x1 where w1: "transport_write io t bs = (t1, p1, x1)"
    using prod_cases3 by blast
  obtain t2 p2 x2 where w2: "transport_write io t1 newline = (t2, p2, x2)"
    using prod_cases3 by blast
  from w1 have x1: "x1 = raises (io t bs)"
    by (auto simp: transport_write_def Let_def)
  from w2 have x2: "x2 = raises (io t1 newline)"
    by (auto simp: transport_write_def Let_def)
  show ?thesis
  proof (cases x1)
    case None
    with Inr w1 w2 x1 x2 show ?thesis
      by (auto simp: step_fails_def produce_record_def)
  next
    case (Some e1)
    with x1 have r1: "raises (io t bs) = Some e1" by simp
    from w1 Some have "transport_write io t bs = (t1, p1, Some e1)" by simp
    with Inr r1 show ?thesis
      by (auto simp: step_fails_def produce_record_def)
  qed
qed

lemma produce_loop_append:
  "produce_loop fmt io p pre t errs = (p1, [], t1, errs) \<Longrightarrow>
   produce_loop fmt io p (pre @ rest) t errs = produce_loop fmt io p1 rest t1 errs"
proof (induction pre arbitrary: p t)
  case Nil
  then show ?case by simp
next
  case (Cons r rs)
  from Cons.prems have go: "\<not> (p \<or> \<not> connected t)"
    by (auto split: if_splits)
  obtain t' p' x where body: "produce_record fmt io r t = (t', p', x)"
    using prod_cases3 by blast
  show ?case
  proof (cases x)
    case None
    with go body Cons.prems
    have "produce_loop fmt io p' rs t' errs = (p1, [], t1, errs)" by simp
    from Cons.IH [OF this] go body None show ?thesis by simp
  next
    case (Some e)
    with go body Cons.prems show ?thesis by simp
  qed
qed

lemma produce_loop_delivered:
  assumes "produce_loop fmt io p pre t errs = (p1, [], t1, errs)"
  shows "\<exists>bss. map (render fmt) pre = map Inr bss \<and> written t1 = written t @ chunks bss"
proof -
  from produce_loop_trace [OF assms] obtain n bss rest where
    d: "drained fmt pre t errs [] t1 errs n bss rest"
    by blast
  then have "n \<le> length pre" and "drop n pre = []" and "rest = []"
    and m: "map (render fmt) (take n pre) = map Inr bss"
    and w: "written t1 = written t @ chunks bss @ rest"
    unfolding drained_def by auto
  then have "take n pre = pre" by simp
  with m w \<open>rest = []\<close> show ?thesis by auto
qed

text \<open>
  C6, as the code has it. The buffer is \<open>pre @ r # rest\<close>; the loop delivers \<open>pre\<close>
  and is still running on a connected transport when the step on \<open>r\<close> fails with
  \<open>e\<close>, in formatting, in encoding or in one of the two writes. Then
  \<open>resumeProducing\<close> raises nothing, prints exactly this failure, and stops: \<open>r\<close> is
  gone from the buffer, \<open>rest\<close> stays there, the transport has the records of \<open>pre\<close>
  and of \<open>r\<close> nothing or the message alone. The paused flag is not set by the failure:
  it stays cleared unless the transport itself asked for a pause.
\<close>

theorem failed_write_stops_drain:
  assumes "handler p"
    and "buffer s = pre @ r # rest"
    and "produce_loop fmt io False pre (transports s (transport p)) (stderr s)
           = (False, [], t1, stderr s)"
    and "connected t1"
    and "step_fails fmt io r t1 e"
  shows "snd (resumeProducing fmt io p s) = None
       \<and> stderr (fst (resumeProducing fmt io p s)) = stderr s @ [e]
       \<and> buffer (fst (resumeProducing fmt io p s)) = rest
       \<and> (\<exists>bss rem. map (render fmt) pre = map Inr bss
             \<and> written (transports (fst (resumeProducing fmt io p s)) (transport p))
                 = written (transports s (transport p)) @ chunks bss @ rem
             \<and> (rem = [] \<or> (\<exists>bs. render fmt r = Inr bs \<and> rem = [bs])))
       \<and> ((\<forall>t b. \<not> calls_pause (io t b)) \<longrightarrow>
             producer (fst (resumeProducing fmt io p s)) = Some (p\<lparr>paused := False\<rparr>))"
proof -
  let ?t0 = "transports s (transport p)"
  from assms(5) obtain t2 p2 where
    body: "produce_record fmt io r t1 = (t2, p2, Some e)"
    unfolding step_fails_iff by blast
  have "produce_loop fmt io False (buffer s) ?t0 (stderr s)
      = produce_loop fmt io False (r # rest) t1 (stderr s)"
    unfolding assms(2) by (rule produce_loop_append [OF assms(3)])
  also have "\<dots> = (p2, rest, t2, stderr s @ [e])"
    using assms(4) body by simp
  finally have loop: "produce_loop fmt io False (buffer s) ?t0 (stderr s)
      = (p2, rest, t2, stderr s @ [e])" .
  note res = resumeProducing_loop [OF assms(1) loop]
  from produce_loop_delivered [OF assms(3)] obtain bss where
    m: "map (render fmt) pre = map Inr bss" and w1: "written t1 = written ?t0 @ chunks bss"
    by blast
  from produce_record_failed [OF body]
  have "\<exists>rem. written t2 = written t1 @ rem
      \<and> (rem = [] \<or> (\<exists>bs. render fmt r = Inr bs \<and> rem = [bs]))"
    by auto
  then obtain rem where w2: "written t2 = written t1 @ rem"
    and rem: "rem = [] \<or> (\<exists>bs. render fmt r = Inr bs \<and> rem = [bs])"
    by blast
  have 1: "snd (resumeProducing fmt io p s) = None"
    and 2: "stderr (fst (resumeProducing fmt io p s)) = stderr s @ [e]"
    and 3: "buffer (fst (resumeProducing fmt io p s)) = rest"
    by (simp_all add: res)
  have 4: "\<exists>bss rem. map (render fmt) pre = map Inr bss
      \<and> written (transports (fst (resumeProducing fmt io p s)) (transport p))
          = written (transports s (transport p)) @ chunks bss @ rem
      \<and> (rem = [] \<or> (\<exists>bs. render fmt r = Inr bs \<and> rem = [bs]))"
    using m w1 w2 rem by (intro exI [of _ bss] exI [of _ rem]) (simp add: res)
  have 5: "(\<forall>t b. \<not> calls_pause (io t b)) \<longrightarrow>
      producer (fst (resumeProducing fmt io p s)) = Some (p\<lparr>paused := False\<rparr>)"
  proof
    assume "\<forall>t b. \<not> calls_pause (io t b)"
    from produce_record_quiet [OF this body]
    show "producer (fst (resumeProducing fmt io p s)) = Some (p\<lparr>paused := False\<rparr>)"
      by (simp add: res)
  qed
  from 1 2 3 4 5 show ?thesis by (intro conjI)
qed

theorem failed_write_stops_drain_witness:
  "handler sample_producer
   \<and> buffer (backlog plain_format (refusing_after 3)) = [warn 0] @ warn 1 # []
   \<and> produce_loop plain_format (refusing_after 3) False [warn 0]
        (transports (backlog plain_format (refusing_after 3)) (transport sample_producer))
        (stderr (backlog plain_format (refusing_after 3)))
      = (False, [],
         \<lparr>connected = True, written = [ascii ''warn 0'', newline], has_producer = True\<rparr>,
         stderr (backlog plain_format (refusing_after 3)))
   \<and> connected \<lparr>connected = True, written = [ascii ''warn 0'', newline], has_producer = True\<rparr>
   \<and> step_fails plain_format (refusing_after 3) (warn 1)
        \<lparr>connected = True, written = [ascii ''warn 0'', newline], has_producer = True\<rparr>
        (Exception ''write failed'')
   \<and> snd (resumeProducing plain_format (refusing_after 3) sample_producer
        (backlog plain_format (refusing_after 3))) = None
   \<and> stderr (fst (resumeProducing plain_format (refusing_after 3) sample_producer
        (backlog plain_format (refusing_after 3)))) = [Exception ''write failed'']
   \<and> buffer (fst (resumeProducing plain_format (refusing_after 3) sample_producer
        (backlog plain_format (refusing_after 3)))) = []
   \<and> written (transports (fst (resumeProducing plain_format (refusing_after 3) sample_producer
        (backlog plain_format (refusing_after 3)))) 0)
      = [ascii ''warn 0'', newline, ascii ''warn 1'']
   \<and> producer (fst (resumeProducing plain_format (refusing_after 3) sample_producer
        (backlog plain_format (refusing_after 3)))) = Some sample_producer"
proof -
  let ?io = "refusing_after 3"
  let ?s = "backlog plain_format ?io"
  let ?t1 = "\<lparr>connected = True, written = [ascii ''warn 0'', newline], has_producer = True\<rparr>"
  let ?s' = "fst (resumeProducing plain_format ?io sample_producer ?s)"
  have bound: "handler sample_producer"
    by (simp add: sample_producer_def)
  have buf: "buffer ?s = [warn 0] @ warn 1 # []"
    by code_simp
  have pre: "produce_loop plain_format ?io False [warn 0]
      (transports ?s (transport sample_producer)) (stderr ?s) = (False, [], ?t1, stderr ?s)"
    by code_simp
  have up: "connected ?t1"
    by simp
  have fails: "step_fails plain_format ?io (warn 1) ?t1 (Exception ''write failed'')"
    by code_simp
  have before: "stderr ?s = []"
    by code_simp
  note drain = failed_write_stops_drain [OF bound buf pre up fails]
  from drain have kept: "snd (resumeProducing plain_format ?io sample_producer ?s) = None"
    by blast
  from drain before have reported: "stderr ?s' = [Exception ''write failed'']"
    by simp
  from drain have left: "buffer ?s' = []"
    by blast
  have sent: "written (transports ?s' 0) = [ascii ''warn 0'', newline, ascii ''warn 1'']"
    by code_simp
  have flag: "producer ?s' = Some sample_producer"
    by code_simp
  from bound buf pre up fails kept reported left sent flag show ?thesis by (intro conjI)
qed

text \<open>
  C6 as the claim words it fails: after a write has failed, the producer's paused flag
  is not set.
\<close>

theorem failed_write_not_paused_counterexample:
  "stderr (run plain_format refusing (constructed plain_format refusing 10)
       [Emit (warn 0), ConnectionMade 0]) = [Exception ''write failed'']
   \<and> producer (run plain_format refusing (constructed plain_format refusing 10)
       [Emit (warn 0), ConnectionMade 0])
     = Some \<lparr>transport = 0, handler = True, paused = False\<rparr>"
proof -
  have a: "stderr (run plain_format refusing (constructed plain_format refusing 10)
      [Emit (warn 0), ConnectionMade 0]) = [Exception ''write failed'']"
    by code_simp
  have b: "producer (run plain_format refusing (constructed plain_format refusing 10)
      [Emit (warn 0), ConnectionMade 0]) = Some \<lparr>transport = 0, handler = True, paused = False\<rparr>"
    by code_simp
  from a b show ?thesis by (intro conjI)
qed

section \<open>The wire format\<close>

text \<open>
  C7, as the code has it. A run of \<open>resumeProducing\<close> delivers the first \<open>n\<close> records
  of the buffer, each with two consecutive \<open>write\<close> calls: the UTF-8 encoding of the
  formatted record, then the single byte \<open>0x0A\<close>. The bytes on the transport are thus
  each rendering followed by one newline, with nothing between or around them; a run
  that reports no failure wrote nothing else.
\<close>

theorem record_wire_format:
  assumes "handler p"
  shows "\<exists>n bss rest. n \<le> length (buffer s)
       \<and> map (render fmt) (take n (buffer s)) = map Inr bss
       \<and> written (transports (fst (resumeProducing fmt io p s)) (transport p))
           = written (transports s (transport p)) @ chunks bss @ rest
       \<and> chunks bss = concat (map (\<lambda>bs. [bs, [0x0A]]) bss)
       \<and> concat (chunks bss) = concat (map (\<lambda>bs. bs @ [0x0A]) bss)
       \<and> (stderr (fst (resumeProducing fmt io p s)) = stderr s \<longrightarrow>
            rest = [] \<and> buffer (fst (resumeProducing fmt io p s)) = drop n (buffer s))"
proof -
  obtain p' buf' t' errs' where
    loop: "produce_loop fmt io False (buffer s) (transports s (transport p)) (stderr s)
             = (p', buf', t', errs')"
    using prod_cases4 by blast
  note res = resumeProducing_loop [OF assms loop]
  from produce_loop_trace [OF loop] obtain n bss rest where
    d: "drained fmt (buffer s) (transports s (transport p)) (stderr s) buf' t' errs' n bss rest"
    by blast
  have stream: "concat (chunks bs') = concat (map (\<lambda>bs. bs @ [0x0A]) bs')" for bs'
    by (induction bs') (simp_all add: chunks_def newline_def)
  from d have "n \<le> length (buffer s)
      \<and> map (render fmt) (take n (buffer s)) = map Inr bss
      \<and> written (transports (fst (resumeProducing fmt io p s)) (transport p))
          = written (transports s (transport p)) @ chunks bss @ rest
      \<and> chunks bss = concat (map (\<lambda>bs. [bs, [0x0A]]) bss)
      \<and> concat (chunks bss) = concat (map (\<lambda>bs. bs @ [0x0A]) bss)
      \<and> (stderr (fst (resumeProducing fmt io p s)) = stderr s \<longrightarrow>
           rest = [] \<and> buffer (fst (resumeProducing fmt io p s)) = drop n (buffer s))"
    unfolding drained_def using stream [of bss]
    by (auto simp: res chunks_def newline_def)
  then show ?thesis by blast
qed

theorem record_wire_format_witness:
  "handler sample_producer
   \<and> (\<exists>n bss rest. n \<le> length (buffer (greeting plain_format accepting))
        \<and> written (transports (fst (resumeProducing plain_format accepting sample_producer
             (greeting plain_format accepting))) (transport sample_producer))
          = written (transports (greeting plain_format accepting) (transport sample_producer))
            @ chunks bss @ rest)
   \<and> render plain_format hello = Inr (ascii ''Hello there, wally!'')
   \<and> written (transports (greeting plain_format accepting) 0) = []
   \<and> written (transports (fst (resumeProducing plain_format accepting sample_producer
        (greeting plain_format accepting))) 0) = chunks [ascii ''Hello there, wally!'']"
proof -
  let ?s = "greeting plain_format accepting"
  have bound: "handler sample_producer"
    by (simp add: sample_producer_def)
  from record_wire_format [OF bound, of ?s plain_format accepting]
  have run: "\<exists>n bss rest. n \<le> length (buffer ?s)
      \<and> written (transports (fst (resumeProducing plain_format accepting sample_producer ?s))
           (transport sample_producer))
        = written (transports ?s (transport sample_producer)) @ chunks bss @ rest"
    by blast
  have rendered: "render plain_format hello = Inr (ascii ''Hello there, wally!'')"
    by code_simp
  have before: "written (transports ?s 0) = []"
    by code_simp
  have after: "written (transports (fst (resumeProducing plain_format accepting sample_producer ?s)) 0)
      = chunks [ascii ''Hello there, wally!'']"
    by code_simp
  from bound run rendered before after show ?thesis by (intro conjI)
qed

text \<open>
  C7 as the claim words it fails: the record of scenario D reaches the transport in two
  \<open>write\<close> calls, its text and then the newline, not in one.
\<close>

theorem record_in_two_writes_counterexample:
  "written (transports (run plain_format accepting (constructed plain_format accepting 10)
       [Emit hello, ConnectionMade 0]) 0) = [ascii ''Hello there, wally!'', newline]
   \<and> length (written (transports (run plain_format accepting
       (constructed plain_format accepting 10) [Emit hello, ConnectionMade 0]) 0)) = 2
   \<and> written (transports (run plain_format accepting (constructed plain_format accepting 10)
       [Emit hello, ConnectionMade 0]) 0) \<noteq> [ascii ''Hello there, wally!'' @ newline]"
proof -
  have a: "written (transports (run plain_format accepting (constructed plain_format accepting 10)
      [Emit hello, ConnectionMade 0]) 0) = [ascii ''Hello there, wally!'', newline]"
    by code_simp
  then show ?thesis by simp
qed


section \<open>One connection attempt at a time\<close>












end
